theory Spec2Isabelle
  imports Main "HOL-Library.Word" "HOL-Library.Sublist" "HOL-Library.AList"
begin

section \<open>Strings and values of the JavaScript program\<close>

text \<open>
  The program is \<^verbatim>\<open>fetch_latest_server_files.js\<close>. A JavaScript string is a sequence of
  UTF-16 code units, so a string is a list of 16-bit words. \<open>js\<close> turns an ASCII literal of
  the source into such a string.
\<close>

type_synonym jchar = "16 word"
type_synonym jstring = "jchar list"

definition js :: "string \<Rightarrow> jstring" where
  "js s = map of_char s"

text \<open>
  The source tests two fields of a catalog entry dynamically (\<^verbatim>\<open>!file.gameVersion\<close>,
  \<^verbatim>\<open>file.serverPackFileId && ...\<close>), so these fields are JavaScript values. Numbers are
  the integers that a JSON identifier can be.
\<close>

datatype jsval =
    Undefined
  | Null
  | Bool bool
  | Num int
  | Str jstring
  | Arr "jsval list"

text \<open>ToBoolean: the arrays, also the empty one, are truthy.\<close>

fun truthy :: "jsval \<Rightarrow> bool" where
  "truthy Undefined = False"
| "truthy Null = False"
| "truthy (Bool b) = b"
| "truthy (Num n) = (n \<noteq> 0)"
| "truthy (Str s) = (s \<noteq> [])"
| "truthy (Arr vs) = True"

text \<open>
  The errors of the program. The source throws plain \<^verbatim>\<open>Error\<close> objects that differ in
  their message only; each constructor stands for one throw site or one failing external
  call, under the name the specification's taxonomy gives it.
  \<^item> \<open>UpstreamResponseError\<close>: line 53, \<^verbatim>\<open>response.data\<close> is not an array (carries the
    \<^verbatim>\<open>typeof\<close> of the value);
  \<^item> \<open>NoMatchingReleaseError\<close>: line 70, no server file was found;
  \<^item> \<open>DownloadError\<close>: line 96 (carries the status text), and a rejected \<^verbatim>\<open>fetch\<close> or an
    \<^verbatim>\<open>error\<close> event of the response body;
  \<^item> \<open>TypeError\<close>: a property read on \<^verbatim>\<open>undefined\<close>/\<^verbatim>\<open>null\<close> or a call of a missing
    method;
  \<^item> \<open>ApiError\<close>: a rejected call of the catalog client;
  \<^item> \<open>ArchiveError\<close>: \<^verbatim>\<open>unzipper\<close> fails;
  \<^item> \<open>IOError\<close>: a failing call of \<^verbatim>\<open>fs\<close>.
\<close>

datatype error =
    UpstreamResponseError jstring
  | NoMatchingReleaseError
  | DownloadError jstring
  | TypeError
  | ApiError
  | ArchiveError
  | IOError

section \<open>Regular expressions and \<^verbatim>\<open>String.prototype.replace\<close>\<close>

text \<open>
  The three regular expressions of the source are sequences of these elements:
  \<^item> \<open>Bol\<close> and \<open>Eol\<close>: \<^verbatim>\<open>^\<close> and \<^verbatim>\<open>$\<close> under the flag \<^verbatim>\<open>m\<close>;
  \<^item> \<open>Eoi\<close>: \<^verbatim>\<open>$\<close> without the flag, the end of the input;
  \<^item> \<open>Lit s\<close>: the characters of \<open>s\<close>;
  \<^item> \<open>Group alts\<close>: a capturing group of literal alternatives, tried in order;
  \<^item> \<open>Many P n\<close>: a greedy repetition, at least \<open>n\<close> times, of a character class.
\<close>

datatype rx =
    Bol
  | Eol
  | Eoi
  | Lit jstring
  | Group "jstring list"
  | Many "jchar \<Rightarrow> bool" nat

text \<open>
  The line terminators of ECMAScript (LF, CR, LS, PS), which \<^verbatim>\<open>.\<close> does not match and at
  which \<^verbatim>\<open>^\<close> and \<^verbatim>\<open>$\<close> match under \<^verbatim>\<open>m\<close>, and the class \<^verbatim>\<open>\s\<close> (white space and
  line terminators).
\<close>

definition isLineTerminator :: "jchar \<Rightarrow> bool" where
  "isLineTerminator c = (c = 0x0A \<or> c = 0x0D \<or> c = 0x2028 \<or> c = 0x2029)"

definition isWhiteSpace :: "jchar \<Rightarrow> bool" where
  "isWhiteSpace c =
     (c = 0x09 \<or> c = 0x0A \<or> c = 0x0B \<or> c = 0x0C \<or> c = 0x0D \<or> c = 0x20 \<or> c = 0xA0 \<or>
      c = 0x1680 \<or> (0x2000 \<le> c \<and> c \<le> 0x200A) \<or> c = 0x2028 \<or> c = 0x2029 \<or>
      c = 0x202F \<or> c = 0x205F \<or> c = 0x3000 \<or> c = 0xFEFF)"

definition notLineTerminator :: "jchar \<Rightarrow> bool" where
  "notLineTerminator c = (\<not> isLineTerminator c)"

definition notSpace :: "jchar \<Rightarrow> bool" where
  "notSpace c = (c \<noteq> 0x20)"

fun firstSome :: "'a option list \<Rightarrow> 'a option" where
  "firstSome [] = None"
| "firstSome (None # xs) = firstSome xs"
| "firstSome (Some x # xs) = Some x"

text \<open>
  The backtracking matcher. \<open>rx_match es b r caps\<close> matches the elements \<open>es\<close> against the
  input \<open>r\<close> that follows the already passed input \<open>b\<close>, with the captures \<open>caps\<close> made so
  far; it returns the input left after the match and the captures. A group tries its
  alternatives from left to right and a repetition tries the longest run first, each
  with all that follows it, as the backtracking of ECMAScript does.
\<close>

fun rx_match :: "rx list \<Rightarrow> jstring \<Rightarrow> jstring \<Rightarrow> jstring list \<Rightarrow> (jstring \<times> jstring list) option" where
  "rx_match [] b r caps = Some (r, caps)"
| "rx_match (Bol # es) b r caps =
     (if b = [] \<or> isLineTerminator (last b) then rx_match es b r caps else None)"
| "rx_match (Eol # es) b r caps =
     (if r = [] \<or> isLineTerminator (hd r) then rx_match es b r caps else None)"
| "rx_match (Eoi # es) b r caps =
     (if r = [] then rx_match es b r caps else None)"
| "rx_match (Lit s # es) b r caps =
     (if prefix s r then rx_match es (b @ s) (drop (length s) r) caps else None)"
| "rx_match (Group alts # es) b r caps =
     firstSome (map (\<lambda>s. if prefix s r
                             then rx_match es (b @ s) (drop (length s) r) (caps @ [s])
                             else None) alts)"
| "rx_match (Many P n # es) b r caps =
     firstSome (map (\<lambda>k. rx_match es (b @ take k r) (drop k r) caps)
                    (rev [n ..< Suc (length (takeWhile P r))]))"

text \<open>
  The search of a regular expression without the flags \<^verbatim>\<open>g\<close> and \<^verbatim>\<open>y\<close>: the match is
  tried at every index from the left, the end of the input included. The result is the
  input before the match, the matched text, the input after it and the captures.
\<close>

fun rx_search :: "rx list \<Rightarrow> jstring \<Rightarrow> jstring \<Rightarrow> (jstring \<times> jstring \<times> jstring \<times> jstring list) option" where
  "rx_search es b [] =
     (case rx_match es b [] [] of
        Some (a, caps) \<Rightarrow> Some (b, [], a, caps)
      | None \<Rightarrow> None)"
| "rx_search es b (c # cs) =
     (case rx_match es b (c # cs) [] of
        Some (a, caps) \<Rightarrow> Some (b, take (length (c # cs) - length a) (c # cs), a, caps)
      | None \<Rightarrow> rx_search es (b @ [c]) cs)"

text \<open>
  GetSubstitution of ECMAScript for a replacement string, without named captures: \<^verbatim>\<open>$$\<close>
  is a dollar sign, \<^verbatim>\<open>$&\<close> the matched text, \<^verbatim>\<open>$`\<close> the input before the match, \<^verbatim>\<open>$'\<close>
  the input after it, \<^verbatim>\<open>$n\<close> and \<^verbatim>\<open>$nn\<close> a capture when there is one with that number;
  every other character stands for itself.
\<close>

definition isDigit :: "jchar \<Rightarrow> bool" where
  "isDigit c = (0x30 \<le> c \<and> c \<le> 0x39)"

definition digitVal :: "jchar \<Rightarrow> nat" where
  "digitVal c = unat c - 48"

fun getSubstitution :: "jstring \<Rightarrow> jstring \<Rightarrow> jstring \<Rightarrow> jstring list \<Rightarrow> jstring \<Rightarrow> jstring" where
  "getSubstitution m b a caps [] = []"
| "getSubstitution m b a caps [c] = [c]"
| "getSubstitution m b a caps (c # d # t) =
     (if c \<noteq> 0x24 then c # getSubstitution m b a caps (d # t)
      else if d = 0x24 then 0x24 # getSubstitution m b a caps t
      else if d = 0x60 then b @ getSubstitution m b a caps t
      else if d = 0x26 then m @ getSubstitution m b a caps t
      else if d = 0x27 then a @ getSubstitution m b a caps t
      else if isDigit d then
        (case t of
           e # t' \<Rightarrow>
             if isDigit e \<and> 10 * digitVal d + digitVal e \<le> length caps then
               (if 1 \<le> 10 * digitVal d + digitVal e
                then caps ! (10 * digitVal d + digitVal e - 1)
                else [c, d, e]) @ getSubstitution m b a caps t'
             else
               (if 1 \<le> digitVal d \<and> digitVal d \<le> length caps
                then caps ! (digitVal d - 1)
                else [c, d]) @ getSubstitution m b a caps t
         | [] \<Rightarrow>
             (if 1 \<le> digitVal d \<and> digitVal d \<le> length caps
              then caps ! (digitVal d - 1)
              else [c, d]))
      else c # getSubstitution m b a caps (d # t))"

text \<open>
  \<^verbatim>\<open>s.replace(re, template)\<close>: the first match is replaced by the expanded template, and
  a string without a match is returned as it is.
\<close>

definition js_replace :: "rx list \<Rightarrow> jstring \<Rightarrow> jstring \<Rightarrow> jstring" where
  "js_replace re s template =
     (case rx_search re [] s of
        None \<Rightarrow> s
      | Some (b, m, a, caps) \<Rightarrow> b @ getSubstitution m b a caps template @ a)"

text \<open>\<^verbatim>\<open>/\.zip$/\<close>, \<^verbatim>\<open>/^SERVER_VERSION=.*$/m\<close> and \<^verbatim>\<open>/^(COPY|ADD)\s+[^ ]+\.(jar|sh)\s+.*$/m\<close>.\<close>

definition zipRegex :: "rx list" where
  "zipRegex = [Lit (js ''.zip''), Eoi]"

definition launchRegex :: "rx list" where
  "launchRegex = [Bol, Lit (js ''SERVER_VERSION=''), Many notLineTerminator 0, Eol]"

definition dockerRegex :: "rx list" where
  "dockerRegex =
     [Bol, Group [js ''COPY'', js ''ADD''], Many isWhiteSpace 1, Many notSpace 1,
      Lit (js ''.''), Group [js ''jar'', js ''sh''], Many isWhiteSpace 1,
      Many notLineTerminator 0, Eol]"

section \<open>findLatestServerFile\<close>

record mod_file =
  displayName :: jstring
  fileName :: jstring
  fileDate :: int
  gameVersion :: jsval
  serverPackFileId :: jsval

text \<open>
  \<open>fileDate\<close> is the time value of \<^verbatim>\<open>new Date(file.fileDate)\<close>, in milliseconds since the
  epoch, for an entry that carries a valid date.
\<close>

definition MINECRAFT_VERSION :: jstring where
  "MINECRAFT_VERSION = js ''1.21''"

text \<open>\<^verbatim>\<open>String.prototype.includes\<close>: the search string occurs at some position.\<close>

fun str_includes :: "jstring \<Rightarrow> jstring \<Rightarrow> bool" where
  "str_includes [] sub = (sub = [])"
| "str_includes (c # cs) sub = (prefix sub (c # cs) \<or> str_includes cs sub)"

text \<open>
  \<^verbatim>\<open>v.includes(x)\<close> for a string \<open>x\<close>: membership for an array (SameValueZero is equality
  on strings), substring search for a string, a TypeError for \<^verbatim>\<open>undefined\<close> and
  \<^verbatim>\<open>null\<close> (no properties) and for a boolean or a number (no such method).
\<close>

fun js_includes :: "jsval \<Rightarrow> jstring \<Rightarrow> error + bool" where
  "js_includes (Arr vs) x = Inr (Str x \<in> set vs)"
| "js_includes (Str s) x = Inr (str_includes s x)"
| "js_includes v x = Inl TypeError"

text \<open>The callback of \<^verbatim>\<open>files.filter\<close>, lines 58 to 66, up to the truthiness of its result.\<close>

definition isCandidate :: "mod_file \<Rightarrow> error + bool" where
  "isCandidate f =
     (if \<not> truthy (gameVersion f) then Inr False
      else if \<not> truthy (serverPackFileId f) then Inr False
      else js_includes (gameVersion f) MINECRAFT_VERSION)"

text \<open>\<^verbatim>\<open>Array.prototype.filter\<close> with a callback that may throw: the first throw ends it.\<close>

fun filterE :: "('a \<Rightarrow> error + bool) \<Rightarrow> 'a list \<Rightarrow> error + 'a list" where
  "filterE p [] = Inr []"
| "filterE p (x # xs) =
     (case p x of
        Inl e \<Rightarrow> Inl e
      | Inr b \<Rightarrow>
          (case filterE p xs of
             Inl e \<Rightarrow> Inl e
           | Inr ys \<Rightarrow> Inr (if b then x # ys else ys)))"

text \<open>
  The comparator of line 67, \<^verbatim>\<open>new Date(b.fileDate) - new Date(a.fileDate)\<close>, and
  \<^verbatim>\<open>Array.prototype.sort\<close>, which is stable: an element is placed before the first
  element of the sorted rest that the comparator does not put in front of it.
\<close>

definition byDateDesc :: "mod_file \<Rightarrow> mod_file \<Rightarrow> int" where
  "byDateDesc a b = fileDate b - fileDate a"

fun insertBy :: "('a \<Rightarrow> 'a \<Rightarrow> int) \<Rightarrow> 'a \<Rightarrow> 'a list \<Rightarrow> 'a list" where
  "insertBy cmp x [] = [x]"
| "insertBy cmp x (y # ys) =
     (if cmp x y \<le> 0 then x # y # ys else y # insertBy cmp x ys)"

fun sortBy :: "('a \<Rightarrow> 'a \<Rightarrow> int) \<Rightarrow> 'a list \<Rightarrow> 'a list" where
  "sortBy cmp [] = []"
| "sortBy cmp (x # xs) = insertBy cmp x (sortBy cmp xs)"

text \<open>\<^verbatim>\<open>xs[0]\<close>, which is \<^verbatim>\<open>undefined\<close> on an empty array.\<close>

fun first :: "'a list \<Rightarrow> 'a option" where
  "first [] = None"
| "first (x # xs) = Some x"

text \<open>Lines 57 to 67: the entry the function settles on, if any.\<close>

definition selectServerFile :: "mod_file list \<Rightarrow> error + mod_file option" where
  "selectServerFile files =
     (case filterE isCandidate files of
        Inl e \<Rightarrow> Inl e
      | Inr cs \<Rightarrow> Inr (first (sortBy byDateDesc cs)))"

text \<open>
  The catalog client is outside the program. \<open>getModFiles\<close> is the outcome of
  \<^verbatim>\<open>api.getModFiles(MODPACK_ID)\<close>: a rejection, or the \<^verbatim>\<open>data\<close> property of the response,
  which is an array of entries or something else (with its \<^verbatim>\<open>typeof\<close>). \<open>getFile\<close> is
  \<^verbatim>\<open>api.getFile(MODPACK_ID, id)\<close>, reduced to the \<^verbatim>\<open>downloadUrl\<close> of its result.
\<close>

datatype api_data = Files "mod_file list" | NotArray jstring

record catalog =
  getModFiles :: "error + api_data"
  getFile :: "jsval \<Rightarrow> error + jstring"

text \<open>
  The object that is returned. Its properties \<^verbatim>\<open>fileName\<close> and \<^verbatim>\<open>displayName\<close> are the
  fields \<open>archiveFileName\<close> and \<open>releaseDisplayName\<close> here, the names being taken by
  the fields of an entry.
\<close>

record release =
  downloadUrl :: jstring
  modpackVersion :: jstring
  archiveFileName :: jstring
  releaseDisplayName :: jstring

definition findLatestServerFile :: "catalog \<Rightarrow> error + release" where
  "findLatestServerFile api =
     (case getModFiles api of
        Inl e \<Rightarrow> Inl e
      | Inr (NotArray ty) \<Rightarrow> Inl (UpstreamResponseError ty)
      | Inr (Files files) \<Rightarrow>
          (case selectServerFile files of
             Inl e \<Rightarrow> Inl e
           | Inr None \<Rightarrow> Inl NoMatchingReleaseError
           | Inr (Some serverFile) \<Rightarrow>
               (case getFile api (serverPackFileId serverFile) of
                  Inl e \<Rightarrow> Inl e
                | Inr url \<Rightarrow>
                    Inr \<lparr> downloadUrl = url,
                          modpackVersion = js_replace zipRegex (fileName serverFile) [],
                          archiveFileName = fileName serverFile,
                          releaseDisplayName = displayName serverFile \<rparr>)))"

section \<open>The file system\<close>

text \<open>
  The working directory is a tree. A file holds its content as the program reads and
  writes it; a directory holds its entries in the order \<^verbatim>\<open>readdir\<close> lists them. A path
  of the source is resolved to its components: it is split at \<^verbatim>\<open>/\<close>, and empty components
  and \<^verbatim>\<open>.\<close> are dropped (no path of the program has a \<^verbatim>\<open>..\<close>). The normalisation that
  \<^verbatim>\<open>path.join\<close> applies keeps the components, so the join is the concatenation.
  A call of \<^verbatim>\<open>fs\<close> fails here when the tree does not allow it (a missing file, a
  directory in the place of a file); permissions and device errors are not modelled.
\<close>

datatype node = File jstring | Dir "(jstring \<times> node) list"

type_synonym path = "jstring list"

fun split_slash :: "jstring \<Rightarrow> jstring list" where
  "split_slash [] = [[]]"
| "split_slash (c # cs) =
     (if c = 0x2F then [] # split_slash cs
      else (case split_slash cs of
              [] \<Rightarrow> [[c]]
            | x # xs \<Rightarrow> (c # x) # xs))"

definition resolve :: "jstring \<Rightarrow> path" where
  "resolve p = filter (\<lambda>c. c \<noteq> [] \<and> c \<noteq> js ''.'') (split_slash p)"

definition path_join :: "jstring \<Rightarrow> jstring \<Rightarrow> jstring" where
  "path_join a b = a @ js ''/'' @ b"

fun lookup :: "node \<Rightarrow> path \<Rightarrow> node option" where
  "lookup n [] = Some n"
| "lookup (File c) (x # p) = None"
| "lookup (Dir es) (x # p) =
     (case map_of es x of
        None \<Rightarrow> None
      | Some sub \<Rightarrow> lookup sub p)"

text \<open>\<open>put root p new\<close> places \<open>new\<close> at \<open>p\<close>; the parent of \<open>p\<close> must be a directory.\<close>

fun put :: "node \<Rightarrow> path \<Rightarrow> node \<Rightarrow> node option" where
  "put n [] new = Some new"
| "put (File c) (x # p) new = None"
| "put (Dir es) [x] new = Some (Dir (AList.update x new es))"
| "put (Dir es) (x # y # p) new =
     (case map_of es x of
        None \<Rightarrow> None
      | Some sub \<Rightarrow>
          (case put sub (y # p) new of
             None \<Rightarrow> None
           | Some sub' \<Rightarrow> Some (Dir (AList.update x sub' es))))"

text \<open>\<^verbatim>\<open>fs.mkdir(p, { recursive: true })\<close>: missing directories on the way are created.\<close>

fun mkdirp :: "node \<Rightarrow> path \<Rightarrow> node option" where
  "mkdirp (File c) p = None"
| "mkdirp (Dir es) [] = Some (Dir es)"
| "mkdirp (Dir es) (x # p) =
     (case mkdirp (case map_of es x of None \<Rightarrow> Dir [] | Some sub \<Rightarrow> sub) p of
        None \<Rightarrow> None
      | Some sub' \<Rightarrow> Some (Dir (AList.update x sub' es)))"

text \<open>\<^verbatim>\<open>fs.rm(p, { recursive: true, force: true })\<close>: a missing path is no error.\<close>

fun remove :: "node \<Rightarrow> path \<Rightarrow> node" where
  "remove n [] = n"
| "remove (File c) (x # p) = File c"
| "remove (Dir es) [x] = Dir (AList.delete x es)"
| "remove (Dir es) (x # y # p) =
     (case map_of es x of
        None \<Rightarrow> Dir es
      | Some sub \<Rightarrow> Dir (AList.update x (remove sub (y # p)) es))"

definition existsSync :: "node \<Rightarrow> jstring \<Rightarrow> bool" where
  "existsSync fs p = (lookup fs (resolve p) \<noteq> None)"

definition readFile :: "node \<Rightarrow> jstring \<Rightarrow> error + jstring" where
  "readFile fs p =
     (case lookup fs (resolve p) of
        Some (File c) \<Rightarrow> Inr c
      | _ \<Rightarrow> Inl IOError)"

definition writeFile :: "node \<Rightarrow> jstring \<Rightarrow> jstring \<Rightarrow> error + node" where
  "writeFile fs p c =
     (case lookup fs (resolve p) of
        Some (Dir es) \<Rightarrow> Inl IOError
      | _ \<Rightarrow>
          (case put fs (resolve p) (File c) of
             None \<Rightarrow> Inl IOError
           | Some fs' \<Rightarrow> Inr fs'))"

definition readdir :: "node \<Rightarrow> jstring \<Rightarrow> error + jstring list" where
  "readdir fs p =
     (case lookup fs (resolve p) of
        Some (Dir es) \<Rightarrow> Inr (map fst es)
      | _ \<Rightarrow> Inl IOError)"

definition mkdir :: "node \<Rightarrow> jstring \<Rightarrow> error + node" where
  "mkdir fs p =
     (case mkdirp fs (resolve p) of
        None \<Rightarrow> Inl IOError
      | Some fs' \<Rightarrow> Inr fs')"

definition rm :: "node \<Rightarrow> jstring \<Rightarrow> node" where
  "rm fs p = remove fs (resolve p)"

definition TEMP_DIR :: jstring where
  "TEMP_DIR = js ''./temp_server_files''"

definition SERVER_FILE_NAME :: jstring where
  "SERVER_FILE_NAME = js ''server-files.zip''"

definition LAUNCH_SH_PATH :: jstring where
  "LAUNCH_SH_PATH = js ''launch.sh''"

definition DOCKERFILE_PATH :: jstring where
  "DOCKERFILE_PATH = js ''Dockerfile''"

text \<open>
  The state of a run: the file system and the write streams that were created and not
  ended, each under the path it writes to.
\<close>

record world =
  disk :: node
  openStreams :: "jstring list"

section \<open>downloadFile\<close>

text \<open>
  The response of \<^verbatim>\<open>fetch\<close>: \<^verbatim>\<open>response.ok\<close> of node-fetch is the status being in the
  range 200 to 299. The body is a stream that delivers chunks and then ends, or emits
  \<^verbatim>\<open>error\<close> after the chunks it delivered.
\<close>

datatype body_end = BodyEnd | BodyError

record response =
  status :: nat
  statusText :: jstring
  bodyChunks :: "jstring list"
  bodyEnd :: body_end

definition ok :: "response \<Rightarrow> bool" where
  "ok r = (200 \<le> status r \<and> status r < 300)"

text \<open>
  \<^verbatim>\<open>createWriteStream(p)\<close> opens the file for writing, which creates or empties it. A
  failure to open is an \<^verbatim>\<open>error\<close> event of the stream; nothing listens to it, so it
  ends the process with status 1, as \<open>main\<close> does on a caught error, and it is an
  \<open>IOError\<close> here.
\<close>

definition createWriteStream :: "world \<Rightarrow> jstring \<Rightarrow> error + world" where
  "createWriteStream w p =
     (case writeFile (disk w) p [] of
        Inl e \<Rightarrow> Inl e
      | Inr fs' \<Rightarrow> Inr (w\<lparr>disk := fs', openStreams := p # openStreams w\<rparr>))"

text \<open>A chunk that is piped into the stream is appended to the file.\<close>

definition writeChunk :: "jstring \<Rightarrow> world \<Rightarrow> jstring \<Rightarrow> world" where
  "writeChunk p w chunk =
     (case readFile (disk w) p of
        Inl e \<Rightarrow> w
      | Inr c \<Rightarrow>
          (case writeFile (disk w) p (c @ chunk) of
             Inl e \<Rightarrow> w
           | Inr fs' \<Rightarrow> w\<lparr>disk := fs'\<rparr>))"

text \<open>
  \<^verbatim>\<open>pipe\<close> ends the write stream when the body ends: the data is flushed, \<^verbatim>\<open>finish\<close> is
  emitted and the stream closes its descriptor.
\<close>

definition endStream :: "world \<Rightarrow> jstring \<Rightarrow> world" where
  "endStream w p = w\<lparr>openStreams := removeAll p (openStreams w)\<rparr>"

text \<open>
  Lines 92 to 106. When the body emits \<^verbatim>\<open>error\<close>, the promise is rejected (line 102);
  \<^verbatim>\<open>pipe\<close> does not end the destination on an error of its source, and the function has
  no other step that would.
\<close>

definition downloadFile :: "(jstring \<Rightarrow> error + response) \<Rightarrow> jstring \<Rightarrow> jstring \<Rightarrow> world \<Rightarrow> (error + unit) \<times> world" where
  "downloadFile fetch url outputPath w =
     (case fetch url of
        Inl e \<Rightarrow> (Inl e, w)
      | Inr response \<Rightarrow>
          if \<not> ok response then (Inl (DownloadError (statusText response)), w)
          else
            (case createWriteStream w outputPath of
               Inl e \<Rightarrow> (Inl e, w)
             | Inr w1 \<Rightarrow>
                 (case bodyEnd response of
                    BodyEnd \<Rightarrow>
                      (Inr (), endStream (foldl (writeChunk outputPath) w1 (bodyChunks response)) outputPath)
                  | BodyError \<Rightarrow>
                      (Inl (DownloadError []), foldl (writeChunk outputPath) w1 (bodyChunks response)))))"

section \<open>findServerJarInTempDir and updateRepoFiles\<close>

text \<open>The callback of \<^verbatim>\<open>files.find\<close>, lines 163 to 167.\<close>

definition isServerJar :: "jstring \<Rightarrow> bool" where
  "isServerJar name =
     (suffix (js ''.jar'') name \<and>
      \<not> str_includes name (js ''installer'') \<and>
      \<not> str_includes name (js ''client''))"

text \<open>
  Lines 159 to 173. The result type has the error case, so that the \<^verbatim>\<open>catch\<close> of line
  169 is a branch of the model. \<open>None\<close> is \<^verbatim>\<open>null\<close>; \<^verbatim>\<open>serverJar || null\<close> is \<^verbatim>\<open>null\<close>
  for a result of \<^verbatim>\<open>find\<close> that is \<^verbatim>\<open>undefined\<close> or the empty string.
\<close>

definition findServerJarInTempDir :: "node \<Rightarrow> error + jstring option" where
  "findServerJarInTempDir fs =
     (case readdir fs TEMP_DIR of
        Inl e \<Rightarrow> Inr None
      | Inr files \<Rightarrow>
          (case List.find isServerJar files of
             None \<Rightarrow> Inr None
           | Some serverJar \<Rightarrow> Inr (if serverJar \<noteq> [] then Some serverJar else None)))"

text \<open>Lines 124 to 153. The returned file system is the one at the return or the throw.\<close>

definition updateRepoFiles :: "jstring \<Rightarrow> node \<Rightarrow> (error + unit) \<times> node" where
  "updateRepoFiles version fs0 =
     (case findServerJarInTempDir fs0 of
        Inl e \<Rightarrow> (Inl e, fs0)
      | Inr serverJarFile \<Rightarrow>
          (case readFile fs0 LAUNCH_SH_PATH of
             Inl e \<Rightarrow> (Inl e, fs0)
           | Inr launchShContent \<Rightarrow>
               (case writeFile fs0 LAUNCH_SH_PATH
                       (js_replace launchRegex launchShContent (js ''SERVER_VERSION='' @ version)) of
                  Inl e \<Rightarrow> (Inl e, fs0)
                | Inr fs1 \<Rightarrow>
                    (case serverJarFile of
                       None \<Rightarrow> (Inr (), fs1)
                     | Some jar \<Rightarrow>
                         if jar \<noteq> [] \<and> existsSync fs1 DOCKERFILE_PATH then
                           (case readFile fs1 DOCKERFILE_PATH of
                              Inl e \<Rightarrow> (Inl e, fs1)
                            | Inr dockerfileContent \<Rightarrow>
                                (case writeFile fs1 DOCKERFILE_PATH
                                        (js_replace dockerRegex dockerfileContent
                                           (js ''COPY '' @ jar @ js '' /server/minecraft_server.jar'')) of
                                   Inl e \<Rightarrow> (Inl e, fs1)
                                 | Inr fs2 \<Rightarrow> (Inr (), fs2)))
                         else (Inr (), fs1)))))"

section \<open>main\<close>

text \<open>
  What is outside the program: the catalog client, \<^verbatim>\<open>fetch\<close>, and \<^verbatim>\<open>unzipper\<close>, which
  reads the archive at its first argument and writes into the directory at its second.
\<close>

record env =
  api :: catalog
  fetch :: "jstring \<Rightarrow> error + response"
  unzip :: "jstring \<Rightarrow> jstring \<Rightarrow> node \<Rightarrow> (error + unit) \<times> node"

text \<open>Lines 112 to 118.\<close>

definition extractServerFiles :: "env \<Rightarrow> node \<Rightarrow> (error + unit) \<times> node" where
  "extractServerFiles e fs0 = unzip e (path_join TEMP_DIR SERVER_FILE_NAME) TEMP_DIR fs0"

text \<open>The \<^verbatim>\<open>try\<close> block of \<open>main\<close>, lines 180 to 194.\<close>

definition tryBlock :: "env \<Rightarrow> world \<Rightarrow> (error + unit) \<times> world" where
  "tryBlock e w =
     (case mkdir (disk w) TEMP_DIR of
        Inl err \<Rightarrow> (Inl err, w)
      | Inr fs1 \<Rightarrow>
          (case findLatestServerFile (api e) of
             Inl err \<Rightarrow> (Inl err, w\<lparr>disk := fs1\<rparr>)
           | Inr serverFileInfo \<Rightarrow>
               (case downloadFile (fetch e) (downloadUrl serverFileInfo)
                       (path_join TEMP_DIR SERVER_FILE_NAME) (w\<lparr>disk := fs1\<rparr>) of
                  (Inl err, w2) \<Rightarrow> (Inl err, w2)
                | (Inr u, w2) \<Rightarrow>
                    (case extractServerFiles e (disk w2) of
                       (Inl err, fs3) \<Rightarrow> (Inl err, w2\<lparr>disk := fs3\<rparr>)
                     | (Inr u, fs3) \<Rightarrow>
                         (case updateRepoFiles (modpackVersion serverFileInfo) fs3 of
                            (Inl err, fs4) \<Rightarrow> (Inl err, w2\<lparr>disk := fs4\<rparr>)
                          | (Inr u, fs4) \<Rightarrow> (Inr (), w2\<lparr>disk := fs4\<rparr>))))))"

text \<open>The \<^verbatim>\<open>finally\<close> block, lines 200 to 205.\<close>

definition finallyBlock :: "world \<Rightarrow> world" where
  "finallyBlock w = (if existsSync (disk w) TEMP_DIR then w\<lparr>disk := rm (disk w) TEMP_DIR\<rparr> else w)"

text \<open>
  Lines 178 to 207: the exit status and the state in which the process ends. The \<^verbatim>\<open>catch\<close>
  block calls \<^verbatim>\<open>process.exit(1)\<close> (line 198), which ends the process at once: control
  never leaves that call, so the \<^verbatim>\<open>finally\<close> block runs only after a \<^verbatim>\<open>try\<close> block that
  did not throw.
\<close>

definition main :: "env \<Rightarrow> world \<Rightarrow> nat \<times> world" where
  "main e w =
     (case tryBlock e w of
        (Inl err, w') \<Rightarrow> (1, w')
      | (Inr u, w') \<Rightarrow> (0, finallyBlock w'))"

section \<open>The properties in the words of the specification\<close>

text \<open>
  An entry is eligible when its server-pack identifier is present and truthy and its
  version tags contain the target version.
\<close>

definition eligible :: "mod_file \<Rightarrow> bool" where
  "eligible f =
     (truthy (serverPackFileId f) \<and>
      (case gameVersion f of Arr tags \<Rightarrow> Str MINECRAFT_VERSION \<in> set tags | _ \<Rightarrow> False))"

text \<open>
  The version tags of an entry are well formed when the field is an array or is missing
  (any falsy value). A truthy value of another type is outside the data model of the
  catalog: on a string \<^verbatim>\<open>includes\<close> searches a substring, on a number or a boolean the
  call throws.
\<close>

definition tagsWellFormed :: "mod_file \<Rightarrow> bool" where
  "tagsWellFormed f = (case gameVersion f of Arr tags \<Rightarrow> True | v \<Rightarrow> \<not> truthy v)"

text \<open>
  A name qualifies as the server program when it ends with \<^verbatim>\<open>.jar\<close> and contains neither
  \<^verbatim>\<open>installer\<close> nor \<^verbatim>\<open>client\<close>.
\<close>

definition qualifies :: "jstring \<Rightarrow> bool" where
  "qualifies name =
     (suffix (js ''.jar'') name \<and> \<not> sublist (js ''installer'') name \<and> \<not> sublist (js ''client'') name)"

text \<open>
  The texts that a sequence of elements matches, as a relation: \<open>rx_lang es b m a\<close> holds
  when the text \<open>m\<close>, standing between the input \<open>b\<close> before it and the input \<open>a\<close> after
  it, can be split into parts that the elements of \<open>es\<close> match in turn.
\<close>

fun rx_lang :: "rx list \<Rightarrow> jstring \<Rightarrow> jstring \<Rightarrow> jstring \<Rightarrow> bool" where
  "rx_lang [] b m a = (m = [])"
| "rx_lang (Bol # es) b m a = ((b = [] \<or> isLineTerminator (last b)) \<and> rx_lang es b m a)"
| "rx_lang (Eol # es) b m a = ((m @ a = [] \<or> isLineTerminator (hd (m @ a))) \<and> rx_lang es b m a)"
| "rx_lang (Eoi # es) b m a = (m @ a = [] \<and> rx_lang es b m a)"
| "rx_lang (Lit s # es) b m a = (prefix s m \<and> rx_lang es (b @ s) (drop (length s) m) a)"
| "rx_lang (Group alts # es) b m a =
     (\<exists>s\<in>set alts. prefix s m \<and> rx_lang es (b @ s) (drop (length s) m) a)"
| "rx_lang (Many P n # es) b m a =
     (\<exists>k\<in>{n .. length m}. list_all P (take k m) \<and> rx_lang es (b @ take k m) (drop k m) a)"

text \<open>
  The lines of a text, as \<^verbatim>\<open>^\<close>, \<^verbatim>\<open>$\<close> and \<^verbatim>\<open>.\<close> see them: every line terminator ends a
  line. A line sets the version when it begins with \<^verbatim>\<open>SERVER_VERSION=\<close>.
\<close>

fun jsLines :: "jstring \<Rightarrow> jstring list" where
  "jsLines [] = [[]]"
| "jsLines (c # cs) =
     (if isLineTerminator c then [] # jsLines cs
      else (case jsLines cs of
              [] \<Rightarrow> [[c]]
            | l # ls \<Rightarrow> (c # l) # ls))"

definition versionLine :: "jstring \<Rightarrow> bool" where
  "versionLine l = prefix (js ''SERVER_VERSION='') l"



text \<open>
  A match of the pattern of the source, written out: the text \<open>m\<close> begins a line, ends
  where a line ends, and is \<^verbatim>\<open>COPY\<close> or \<^verbatim>\<open>ADD\<close>, white space, a name of characters
  other than the space, a dot, \<^verbatim>\<open>jar\<close> or \<^verbatim>\<open>sh\<close>, white space, and the rest of a line.
\<close>

definition copyDirective :: "jstring \<Rightarrow> jstring \<Rightarrow> jstring \<Rightarrow> bool" where
  "copyDirective b m a =
     ((b = [] \<or> isLineTerminator (last b)) \<and> (a = [] \<or> isLineTerminator (hd a)) \<and>
      (\<exists>kw ws1 name ext ws2 rest.
         m = kw @ ws1 @ name @ js ''.'' @ ext @ ws2 @ rest \<and>
         (kw = js ''COPY'' \<or> kw = js ''ADD'') \<and>
         ws1 \<noteq> [] \<and> list_all isWhiteSpace ws1 \<and>
         name \<noteq> [] \<and> list_all notSpace name \<and>
         (ext = js ''jar'' \<or> ext = js ''sh'') \<and>
         ws2 \<noteq> [] \<and> list_all isWhiteSpace ws2 \<and>
         list_all notLineTerminator rest))"

text \<open>
  The parts of a copy directive, and the order in which the backtracking prefers one way
  of splitting a text into such parts to another: the longer white space after the
  keyword first, then the longer name, then the longer white space after the extension,
  then the longer rest of the line.
\<close>

definition directiveParts :: "jstring \<Rightarrow> jstring \<Rightarrow> jstring \<Rightarrow> jstring \<Rightarrow> jstring \<Rightarrow> jstring \<Rightarrow> bool" where
  "directiveParts kw ws1 name ext ws2 rest =
     ((kw = js ''COPY'' \<or> kw = js ''ADD'') \<and>
      ws1 \<noteq> [] \<and> list_all isWhiteSpace ws1 \<and>
      name \<noteq> [] \<and> list_all notSpace name \<and>
      (ext = js ''jar'' \<or> ext = js ''sh'') \<and>
      ws2 \<noteq> [] \<and> list_all isWhiteSpace ws2 \<and>
      list_all notLineTerminator rest)"

definition choiceLe :: "jstring \<Rightarrow> jstring \<Rightarrow> jstring \<Rightarrow> jstring \<Rightarrow> jstring \<Rightarrow> jstring \<Rightarrow> jstring \<Rightarrow> jstring \<Rightarrow> bool" where
  "choiceLe ws1' name' ws2' rest' ws1 name ws2 rest =
     (length ws1' < length ws1 \<or>
      (length ws1' = length ws1 \<and>
        (length name' < length name \<or>
         (length name' = length name \<and>
           (length ws2' < length ws2 \<or>
            (length ws2' = length ws2 \<and> length rest' \<le> length rest))))))"

text \<open>
  The directive that \<^verbatim>\<open>replace\<close> settles on in the text \<open>c\<close>: it stands between \<open>b\<close> and
  \<open>a\<close>, no copy directive begins further left, and no other way of reading a copy
  directive at this place is preferred to it.
\<close>

definition chosenDirective ::
  "jstring \<Rightarrow> jstring \<Rightarrow> jstring \<Rightarrow> jstring \<Rightarrow> jstring \<Rightarrow> jstring \<Rightarrow> jstring \<Rightarrow> jstring \<Rightarrow> jstring \<Rightarrow> bool" where
  "chosenDirective c b kw ws1 name ext ws2 rest a =
     (c = b @ kw @ ws1 @ name @ js ''.'' @ ext @ ws2 @ rest @ a \<and>
      (b = [] \<or> isLineTerminator (last b)) \<and> (a = [] \<or> isLineTerminator (hd a)) \<and>
      directiveParts kw ws1 name ext ws2 rest \<and>
      (\<forall>b2 m2 a2. c = b2 @ m2 @ a2 \<and> length b2 < length b \<longrightarrow> \<not> copyDirective b2 m2 a2) \<and>
      (\<forall>kw' ws1' name' ext' ws2' rest' a'.
         kw @ ws1 @ name @ js ''.'' @ ext @ ws2 @ rest @ a =
           kw' @ ws1' @ name' @ js ''.'' @ ext' @ ws2' @ rest' @ a' \<and>
         (a' = [] \<or> isLineTerminator (hd a')) \<and>
         directiveParts kw' ws1' name' ext' ws2' rest' \<longrightarrow>
         choiceLe ws1' name' ws2' rest' ws1 name ws2 rest))"

section \<open>Example inputs\<close>

text \<open>
  A listing with an entry of another version, an entry without a server pack, two
  eligible entries of the same date, and an entry without version tags.
\<close>

definition fileA :: mod_file where
  "fileA = \<lparr> displayName = js ''A'', fileName = js ''a.zip'', fileDate = 100,
             gameVersion = Arr [Str (js ''1.20'')], serverPackFileId = Num 11 \<rparr>"
definition fileB :: mod_file where
  "fileB = \<lparr> displayName = js ''B'', fileName = js ''b.zip'', fileDate = 300,
             gameVersion = Arr [Str (js ''1.21'')], serverPackFileId = Undefined \<rparr>"
definition fileC :: mod_file where
  "fileC = \<lparr> displayName = js ''C'', fileName = js ''c.zip'', fileDate = 200,
             gameVersion = Arr [Str (js ''1.21''), Str (js ''NeoForge'')], serverPackFileId = Num 13 \<rparr>"
definition fileD :: mod_file where
  "fileD = \<lparr> displayName = js ''D'', fileName = js ''d.zip'', fileDate = 400,
             gameVersion = Undefined, serverPackFileId = Num 14 \<rparr>"
definition fileE :: mod_file where
  "fileE = \<lparr> displayName = js ''E'', fileName = js ''e.zip'', fileDate = 200,
             gameVersion = Arr [Str (js ''1.21'')], serverPackFileId = Num 15 \<rparr>"

definition exampleCatalog :: catalog where
  "exampleCatalog =
     \<lparr> getModFiles = Inr (Files [fileA, fileB, fileC, fileD, fileE]),
       getFile = (\<lambda>v. if v = Num 13 then Inr (js ''https://cdn/c-server.zip'') else Inl ApiError) \<rparr>"

definition shapeChanged :: catalog where
  "shapeChanged = \<lparr> getModFiles = Inr (NotArray (js ''object'')), getFile = (\<lambda>v. Inl ApiError) \<rparr>"

definition noServerPack :: catalog where
  "noServerPack = \<lparr> getModFiles = Inr (Files [fileA, fileB, fileD]), getFile = (\<lambda>v. Inl ApiError) \<rparr>"

definition notFound :: response where
  "notFound = \<lparr> status = 404, statusText = js ''Not Found'', bodyChunks = [js ''<html>''], bodyEnd = BodyEnd \<rparr>"

definition emptyWorld :: world where
  "emptyWorld = \<lparr> disk = Dir [(js ''temp_server_files'', Dir [])], openStreams = [] \<rparr>"

definition unpacked :: node where
  "unpacked =
     Dir [(js ''launch.sh'', File (js ''SERVER_VERSION=1.0'')),
          (js ''temp_server_files'',
             Dir [(js ''server-files.zip'', File []),
                  (js ''forge-1.21-installer.jar'', File []),
                  (js ''mods'', Dir []),
                  (js ''client-extras.jar'', File []),
                  (js ''server.jar'', File []),
                  (js ''other.jar'', File [])])]"

definition resetResponse :: response where
  "resetResponse = \<lparr> status = 200, statusText = js ''OK'', bodyChunks = [js ''PK'', js ''ab''], bodyEnd = BodyError \<rparr>"

definition zipResponse :: response where
  "zipResponse = \<lparr> status = 200, statusText = js ''OK'', bodyChunks = [js ''PK'', js ''ab''], bodyEnd = BodyEnd \<rparr>"

definition resetFetch :: "jstring \<Rightarrow> error + response" where
  "resetFetch url = Inr resetResponse"

definition failingEnv :: env where
  "failingEnv = \<lparr> api = \<lparr> getModFiles = Inr (Files []), getFile = (\<lambda>v. Inl ApiError) \<rparr>,
                   fetch = (\<lambda>u. Inr zipResponse),
                   unzip = (\<lambda>zip dir d. (Inr (), d)) \<rparr>"

definition freshWorld :: world where
  "freshWorld = \<lparr> disk = Dir [(js ''launch.sh'', File (js ''SERVER_VERSION=1.0''))], openStreams = [] \<rparr>"

definition noProgram :: node where
  "noProgram =
     Dir [(js ''launch.sh'', File (js ''SERVER_VERSION=1.0'')),
          (js ''Dockerfile'', File (js ''COPY old.jar /server/minecraft_server.jar'')),
          (js ''temp_server_files'', Dir [(js ''forge-1.21-installer.jar'', File [])])]"

text \<open>
  A repository with a launch script of mixed line ends and a Dockerfile, one without a version
  line in the launch script, and one whose Dockerfile has a tab in the copied name.
\<close>

definition launchText :: jstring where
  "launchText =
     js ''#!/bin/sh'' @ [0x0A] @ js ''SERVER_VERSION=1.0'' @ [0x0D, 0x0A] @
     js ''java -jar server.jar'' @ [0x0A] @ js ''SERVER_VERSION=old''"

definition dockerText :: jstring where
  "dockerText =
     js ''FROM java'' @ [0x0A] @ js ''COPY old.jar /srv/old.jar'' @ [0x0A] @ js ''ADD run.sh /run.sh''"

definition built :: node where
  "built =
     Dir [(js ''launch.sh'', File launchText),
          (js ''Dockerfile'', File dockerText),
          (js ''temp_server_files'', Dir [(js ''server.jar'', File [])])]"

definition noVersion :: node where
  "noVersion =
     Dir [(js ''launch.sh'', File (js ''java -jar server.jar'')),
          (js ''temp_server_files'', Dir [])]"



section \<open>Properties of findLatestServerFile\<close>

lemma isCandidate_wf: "tagsWellFormed f \<Longrightarrow> isCandidate f = Inr (eligible f)"
  by (cases "gameVersion f") (auto simp: isCandidate_def eligible_def tagsWellFormed_def)

lemma filterE_total:
  "(\<And>x. x \<in> set xs \<Longrightarrow> p x = Inr (q x)) \<Longrightarrow> filterE p xs = Inr (filter q xs)"
  by (induction xs) auto

lemma filterE_wf:
  "list_all tagsWellFormed listing \<Longrightarrow> filterE isCandidate listing = Inr (filter eligible listing)"
  by (rule filterE_total) (simp add: list_all_iff isCandidate_wf)

lemma eligible_iff:
  "eligible f \<longleftrightarrow> truthy (serverPackFileId f) \<and> (\<exists>tags. gameVersion f = Arr tags \<and> Str MINECRAFT_VERSION \<in> set tags)"
  by (cases "gameVersion f") (auto simp: eligible_def)

text \<open>
  C1. On a listing with well-formed version tags the filter of lines 58 to 66 does not
  throw and keeps exactly the eligible entries: an entry whose server-pack identifier is
  absent or falsy, an entry whose version tags are missing, and an entry whose tags do
  not contain the target version are all left out.
\<close>

theorem candidate_filter:
  assumes "list_all tagsWellFormed listing"
  shows "\<exists>cs. filterE isCandidate listing = Inr cs \<and> cs = filter eligible listing \<and>
           (\<forall>f\<in>set listing.
              (\<not> truthy (serverPackFileId f) \<longrightarrow> f \<notin> set cs) \<and>
              (\<not> truthy (gameVersion f) \<longrightarrow> f \<notin> set cs) \<and>
              (\<forall>tags. gameVersion f = Arr tags \<and> Str MINECRAFT_VERSION \<notin> set tags \<longrightarrow> f \<notin> set cs))"
proof -
  have "filterE isCandidate listing = Inr (filter eligible listing)"
    using assms by (rule filterE_wf)
  moreover have "\<not> eligible f" if "\<not> truthy (serverPackFileId f)" for f
    using that by (simp add: eligible_iff)
  moreover have "\<not> eligible f" if "\<not> truthy (gameVersion f)" for f
    using that by (auto simp: eligible_iff)
  moreover have "\<not> eligible f" if "gameVersion f = Arr tags" "Str MINECRAFT_VERSION \<notin> set tags" for f tags
    using that by (simp add: eligible_iff)
  ultimately show ?thesis by auto
qed

lemmas example_files = fileA_def fileB_def fileC_def fileD_def fileE_def

lemma example_wf: "list_all tagsWellFormed [fileA, fileB, fileC, fileD, fileE]"
  by (simp add: tagsWellFormed_def example_files)

lemma example_eligible: "filter eligible [fileA, fileB, fileC, fileD, fileE] = [fileC, fileE]"
  by (simp add: eligible_def example_files MINECRAFT_VERSION_def js_def)

theorem candidate_filter_witness:
  "list_all tagsWellFormed [fileA, fileB, fileC, fileD, fileE] \<and>
   filterE isCandidate [fileA, fileB, fileC, fileD, fileE] = Inr [fileC, fileE]"
  using candidate_filter [OF example_wf] example_wf example_eligible by simp


lemma hd_insertBy: "first (insertBy cmp x ys) = (case first ys of None \<Rightarrow> Some x | Some y \<Rightarrow> if cmp x y \<le> 0 then Some x else Some y)"
  by (cases ys) auto

lemma first_sortBy_date:
  "xs \<noteq> [] \<Longrightarrow> \<exists>pre h post. first (sortBy byDateDesc xs) = Some h \<and> xs = pre @ h # post \<and>
     (\<forall>y\<in>set pre. fileDate y < fileDate h) \<and> (\<forall>y\<in>set post. fileDate y \<le> fileDate h)"
proof (induction xs)
  case Nil
  then show ?case by simp
next
  case (Cons x xs)
  show ?case
  proof (cases "xs = []")
    case True
    then show ?thesis
      by (intro exI [of _ "[]"] exI [of _ x]) simp
  next
    case False
    from Cons.IH [OF False] obtain pre h post where
      h: "first (sortBy byDateDesc xs) = Some h" "xs = pre @ h # post"
         "\<forall>y\<in>set pre. fileDate y < fileDate h" "\<forall>y\<in>set post. fileDate y \<le> fileDate h"
      by blast
    show ?thesis
    proof (cases "fileDate h \<le> fileDate x")
      case True
      then have "first (sortBy byDateDesc (x # xs)) = Some x"
        using h(1) by (simp add: hd_insertBy byDateDesc_def)
      moreover have "\<forall>y\<in>set xs. fileDate y \<le> fileDate x"
        using h(2-4) True by fastforce
      ultimately show ?thesis
        by (intro exI [of _ "[]"] exI [of _ x] exI [of _ xs]) simp
    next
      case False
      then have "first (sortBy byDateDesc (x # xs)) = Some h"
        using h(1) by (simp add: hd_insertBy byDateDesc_def)
      then show ?thesis
        using h(2-4) False
        by (intro exI [of _ "x # pre"] exI [of _ h] exI [of _ post]) auto
    qed
  qed
qed

lemma filter_split:
  "filter P xs = pre' @ h # post' \<Longrightarrow>
   \<exists>pre post. xs = pre @ h # post \<and> P h \<and> filter P pre = pre' \<and> filter P post = post'"
proof (induction pre' arbitrary: xs)
  case Nil
  then obtain us vs where "xs = us @ h # vs" "\<forall>u\<in>set us. \<not> P u" "P h" "post' = filter P vs"
    by (auto simp: filter_eq_Cons_iff)
  then show ?case
    by (intro exI [of _ us] exI [of _ vs]) simp
next
  case (Cons a pre')
  from Cons.prems obtain us vs where
    a: "xs = us @ a # vs" "\<forall>u\<in>set us. \<not> P u" "P a" "pre' @ h # post' = filter P vs"
    by (auto simp: filter_eq_Cons_iff)
  from Cons.IH [OF a(4) [symmetric]] obtain pre post where
    b: "vs = pre @ h # post" "P h" "filter P pre = pre'" "filter P post = post'"
    by blast
  show ?case
    using a(1-3) b
    by (intro exI [of _ "us @ a # pre"] exI [of _ post]) simp
qed


text \<open>
  C2. When the listing has an eligible entry, the selected entry \<open>h\<close> is eligible, no
  eligible entry has a later date, and every eligible entry before \<open>h\<close> in the listing
  has a strictly earlier date: \<open>h\<close> is the first entry of the listing among those of the
  latest date. The release that is returned is built from \<open>h\<close>.
\<close>

theorem latest_selected:
  assumes "getModFiles cat = Inr (Files listing)"
    and "list_all tagsWellFormed listing"
    and "filter eligible listing \<noteq> []"
  shows "\<exists>pre h post.
           listing = pre @ h # post \<and> eligible h \<and>
           (\<forall>y\<in>set pre. eligible y \<longrightarrow> fileDate y < fileDate h) \<and>
           (\<forall>y\<in>set post. eligible y \<longrightarrow> fileDate y \<le> fileDate h) \<and>
           selectServerFile listing = Inr (Some h) \<and>
           findLatestServerFile cat =
             (case getFile cat (serverPackFileId h) of
                Inl e \<Rightarrow> Inl e
              | Inr url \<Rightarrow>
                  Inr \<lparr> downloadUrl = url,
                        modpackVersion = js_replace zipRegex (fileName h) [],
                        archiveFileName = fileName h,
                        releaseDisplayName = displayName h \<rparr>)"
proof -
  have cs: "filterE isCandidate listing = Inr (filter eligible listing)"
    using assms(2) by (rule filterE_wf)
  from first_sortBy_date [OF assms(3)] obtain pre' h post' where
    h: "first (sortBy byDateDesc (filter eligible listing)) = Some h"
       "filter eligible listing = pre' @ h # post'"
       "\<forall>y\<in>set pre'. fileDate y < fileDate h" "\<forall>y\<in>set post'. fileDate y \<le> fileDate h"
    by blast
  from filter_split [OF h(2)] obtain pre post where
    p: "listing = pre @ h # post" "eligible h" "filter eligible pre = pre'" "filter eligible post = post'"
    by blast
  have sel: "selectServerFile listing = Inr (Some h)"
    by (simp add: selectServerFile_def cs h(1))
  have "\<forall>y\<in>set pre. eligible y \<longrightarrow> fileDate y < fileDate h"
    using h(3) p(3) by auto
  moreover have "\<forall>y\<in>set post. eligible y \<longrightarrow> fileDate y \<le> fileDate h"
    using h(4) p(4) by auto
  moreover have "findLatestServerFile cat =
             (case getFile cat (serverPackFileId h) of
                Inl e \<Rightarrow> Inl e
              | Inr url \<Rightarrow>
                  Inr \<lparr> downloadUrl = url,
                        modpackVersion = js_replace zipRegex (fileName h) [],
                        archiveFileName = fileName h,
                        releaseDisplayName = displayName h \<rparr>)"
    by (simp add: findLatestServerFile_def assms(1) sel)
  ultimately show ?thesis
    using p(1,2) sel by blast
qed

lemma example_select: "selectServerFile [fileA, fileB, fileC, fileD, fileE] = Inr (Some fileC)"
proof -
  have "filterE isCandidate [fileA, fileB, fileC, fileD, fileE] = Inr [fileC, fileE]"
    by (simp only: filterE_wf [OF example_wf] example_eligible)
  then show ?thesis
    by (simp add: selectServerFile_def byDateDesc_def fileC_def fileE_def)
qed

lemma strip_c_zip: "js_replace zipRegex (js ''c.zip'') [] = js ''c''"
  by code_simp

theorem latest_selected_witness:
  "getModFiles exampleCatalog = Inr (Files [fileA, fileB, fileC, fileD, fileE]) \<and>
   list_all tagsWellFormed [fileA, fileB, fileC, fileD, fileE] \<and>
   filter eligible [fileA, fileB, fileC, fileD, fileE] \<noteq> [] \<and>
   selectServerFile [fileA, fileB, fileC, fileD, fileE] = Inr (Some fileC) \<and>
   findLatestServerFile exampleCatalog =
     Inr \<lparr> downloadUrl = js ''https://cdn/c-server.zip'', modpackVersion = js ''c'',
           archiveFileName = js ''c.zip'', releaseDisplayName = js ''C'' \<rparr>"
proof -
  have a: "getModFiles exampleCatalog = Inr (Files [fileA, fileB, fileC, fileD, fileE])"
    by (simp add: exampleCatalog_def)
  have c: "filter eligible [fileA, fileB, fileC, fileD, fileE] \<noteq> []"
    by (simp only: example_eligible) simp
  from latest_selected [OF a example_wf c] obtain h where
    h: "selectServerFile [fileA, fileB, fileC, fileD, fileE] = Inr (Some h)"
       "findLatestServerFile exampleCatalog =
          (case getFile exampleCatalog (serverPackFileId h) of
             Inl e \<Rightarrow> Inl e
           | Inr url \<Rightarrow>
               Inr \<lparr> downloadUrl = url,
                     modpackVersion = js_replace zipRegex (fileName h) [],
                     archiveFileName = fileName h,
                     releaseDisplayName = displayName h \<rparr>)"
    by blast
  from h(1) example_select have "h = fileC" by simp
  with h(2) have "findLatestServerFile exampleCatalog =
     Inr \<lparr> downloadUrl = js ''https://cdn/c-server.zip'', modpackVersion = js ''c'',
           archiveFileName = js ''c.zip'', releaseDisplayName = js ''C'' \<rparr>"
    by (simp add: exampleCatalog_def fileC_def strip_c_zip)
  with a example_wf c example_select show ?thesis
    by (intro conjI)
qed

text \<open>
  C3. When the \<^verbatim>\<open>data\<close> of the response is not an array the function fails with
  \<open>UpstreamResponseError\<close>, and when no entry passes the filter it fails with
  \<open>NoMatchingReleaseError\<close>; a failure is \<open>Inl\<close>, so no release is returned.
\<close>

theorem resolve_failures:
  "(getModFiles cat = Inr (NotArray ty) \<longrightarrow>
      findLatestServerFile cat = Inl (UpstreamResponseError ty)) \<and>
   (getModFiles cat = Inr (Files listing) \<and> filterE isCandidate listing = Inr [] \<longrightarrow>
      findLatestServerFile cat = Inl NoMatchingReleaseError)"
  by (simp add: findLatestServerFile_def selectServerFile_def)

theorem resolve_failures_witness:
  "getModFiles shapeChanged = Inr (NotArray (js ''object'')) \<and>
   findLatestServerFile shapeChanged = Inl (UpstreamResponseError (js ''object'')) \<and>
   getModFiles noServerPack = Inr (Files [fileA, fileB, fileD]) \<and>
   filterE isCandidate [fileA, fileB, fileD] = Inr [] \<and>
   findLatestServerFile noServerPack = Inl NoMatchingReleaseError"
proof -
  have a: "getModFiles shapeChanged = Inr (NotArray (js ''object''))"
    by (simp add: shapeChanged_def)
  have b: "getModFiles noServerPack = Inr (Files [fileA, fileB, fileD])"
    by (simp add: noServerPack_def)
  have c: "filterE isCandidate [fileA, fileB, fileD] = Inr []"
    by (simp add: isCandidate_def example_files MINECRAFT_VERSION_def js_def)
  show ?thesis
    using resolve_failures [of shapeChanged "js ''object''" "[]"]
      resolve_failures [of noServerPack "[]" "[fileA, fileB, fileD]"] a b c
    by simp
qed


section \<open>Properties of the regular expressions\<close>

text \<open>
  The matcher finds a match exactly where the relation has one, and the search returns
  the leftmost position that has one.
\<close>

lemma firstSome_Some: "firstSome xs = Some y \<Longrightarrow> Some y \<in> set xs"
  by (induction xs rule: firstSome.induct) auto

lemma firstSome_None: "firstSome xs = None \<Longrightarrow> x \<in> set xs \<Longrightarrow> x = None"
  by (induction xs rule: firstSome.induct) auto

lemma firstSome_map_not_None:
  assumes "x \<in> set xs" and "f x \<noteq> None"
  shows "firstSome (map f xs) \<noteq> None"
proof
  assume "firstSome (map f xs) = None"
  then show False
    using assms firstSome_None [of "map f xs" "f x"] by simp
qed

lemma take_takeWhile_all: "k \<le> length (takeWhile P r) \<Longrightarrow> list_all P (take k r)"
proof -
  assume k: "k \<le> length (takeWhile P r)"
  have "take k r = take k (takeWhile P r @ dropWhile P r)" by simp
  also have "\<dots> = take k (takeWhile P r)" using k by (simp del: takeWhile_dropWhile_id)
  finally have "set (take k r) \<subseteq> set (takeWhile P r)" by (simp add: set_take_subset)
  then show ?thesis by (auto simp: list_all_iff dest: set_takeWhileD)
qed

lemma all_take_le_takeWhile: "list_all P (take k r) \<Longrightarrow> k \<le> length r \<Longrightarrow> k \<le> length (takeWhile P r)"
proof (induction r arbitrary: k)
  case Nil
  then show ?case by simp
next
  case (Cons x r)
  then show ?case by (cases k) auto
qed

lemma rx_match_sound:
  "rx_match es b r caps = Some (a, caps') \<Longrightarrow> \<exists>m. r = m @ a \<and> rx_lang es b m a"
proof (induction es arbitrary: b r caps)
  case Nil
  then show ?case by simp
next
  case (Cons e es)
  show ?case
  proof (cases e)
    case Bol
    with Cons show ?thesis by (auto split: if_splits)
  next
    case Eol
    with Cons.prems have c: "r = [] \<or> isLineTerminator (hd r)" and m: "rx_match es b r caps = Some (a, caps')"
      by (auto split: if_splits)
    from Cons.IH [OF m] obtain m where "r = m @ a" "rx_lang es b m a" by blast
    with c Eol show ?thesis by auto
  next
    case Eoi
    with Cons.prems have c: "r = []" and m: "rx_match es b r caps = Some (a, caps')"
      by (auto split: if_splits)
    from Cons.IH [OF m] obtain m where "r = m @ a" "rx_lang es b m a" by blast
    with c Eoi show ?thesis by auto
  next
    case (Lit s)
    with Cons.prems have p: "prefix s r" and m: "rx_match es (b @ s) (drop (length s) r) caps = Some (a, caps')"
      by (auto split: if_splits)
    from Cons.IH [OF m] obtain m where m': "drop (length s) r = m @ a" "rx_lang es (b @ s) m a" by blast
    from p m'(1) have "r = (s @ m) @ a" by (auto simp: prefix_def)
    with m'(2) Lit show ?thesis by (intro exI [of _ "s @ m"]) simp
  next
    case (Group alts)
    with Cons.prems obtain s where s: "s \<in> set alts" "prefix s r"
      and m: "rx_match es (b @ s) (drop (length s) r) (caps @ [s]) = Some (a, caps')"
      by (auto dest!: firstSome_Some split: if_splits)
    from Cons.IH [OF m] obtain m where m': "drop (length s) r = m @ a" "rx_lang es (b @ s) m a" by blast
    from s(2) m'(1) have "r = (s @ m) @ a" by (auto simp: prefix_def)
    moreover have "rx_lang (Group alts # es) b (s @ m) a"
      using m'(2) s(1) by (auto intro!: bexI [of _ s])
    ultimately show ?thesis using Group by blast
  next
    case (Many P n)
    with Cons.prems obtain k where k: "n \<le> k" "k \<le> length (takeWhile P r)"
      and m: "rx_match es (b @ take k r) (drop k r) caps = Some (a, caps')"
      by (auto dest!: firstSome_Some)
    from Cons.IH [OF m] obtain m where m': "drop k r = m @ a" "rx_lang es (b @ take k r) m a" by blast
    have kr: "k \<le> length r"
      using k(2) length_takeWhile_le [of P r] by simp
    have r: "r = (take k r @ m) @ a"
      using m'(1) append_take_drop_id [of k r] by simp
    have "list_all P (take k r)"
      using k(2) by (rule take_takeWhile_all)
    then have "rx_lang (Many P n # es) b (take k r @ m) a"
      using k(1) kr m'(2) by (auto intro!: bexI [of _ k])
    with r Many show ?thesis by blast
  qed
qed

lemma rx_match_complete:
  "rx_lang es b m a \<Longrightarrow> rx_match es b (m @ a) caps \<noteq> None"
proof (induction es arbitrary: b m caps)
  case Nil
  then show ?case by simp
next
  case (Cons e es)
  show ?case
  proof (cases e)
    case Bol
    with Cons show ?thesis by auto
  next
    case Eol
    with Cons show ?thesis by auto
  next
    case Eoi
    with Cons show ?thesis by auto
  next
    case (Lit s)
    with Cons.prems obtain m' where m': "m = s @ m'" "rx_lang es (b @ s) m' a"
      by (auto simp: prefix_def)
    from Cons.IH [OF m'(2)] show ?thesis
      using Lit m'(1) by simp
  next
    case (Group alts)
    with Cons.prems obtain s m' where s: "s \<in> set alts" "m = s @ m'" "rx_lang es (b @ s) m' a"
      by (auto simp: prefix_def)
    from Cons.IH [OF s(3)] have "rx_match es (b @ s) (m' @ a) (caps @ [s]) \<noteq> None" .
    then have "(if prefix s (m @ a)
                then rx_match es (b @ s) (drop (length s) (m @ a)) (caps @ [s])
                else None) \<noteq> None"
      using s(2) by simp
    from firstSome_map_not_None [where f = "\<lambda>s. if prefix s (m @ a)
                then rx_match es (b @ s) (drop (length s) (m @ a)) (caps @ [s])
                else None", OF s(1) this]
    show ?thesis
      using Group by simp
  next
    case (Many P n)
    with Cons.prems obtain k where k: "n \<le> k" "k \<le> length m" "list_all P (take k m)"
      "rx_lang es (b @ take k m) (drop k m) a"
      by auto
    from Cons.IH [OF k(4)] have i: "rx_match es (b @ take k (m @ a)) (drop k (m @ a)) caps \<noteq> None"
      using k(2) by simp
    have "list_all P (take k (m @ a))" using k(2,3) by simp
    then have "k \<le> length (takeWhile P (m @ a))"
      using k(2) by (intro all_take_le_takeWhile) simp_all
    then have "k \<in> set (rev [n ..< Suc (length (takeWhile P (m @ a)))])"
      using k(1) by (simp del: upt_Suc)
    from firstSome_map_not_None [where f = "\<lambda>k. rx_match es (b @ take k (m @ a)) (drop k (m @ a)) caps",
        OF this i]
    show ?thesis
      using Many by (simp del: upt_Suc)
  qed
qed

lemma rx_search_Some:
  "rx_search es b r = Some (b', m, a, caps) \<Longrightarrow>
   \<exists>pre. b' = b @ pre \<and> r = pre @ m @ a \<and> rx_lang es b' m a \<and>
     (\<forall>pre2 m2 a2. r = pre2 @ m2 @ a2 \<and> length pre2 < length pre \<longrightarrow> \<not> rx_lang es (b @ pre2) m2 a2)"
proof (induction r arbitrary: b)
  case Nil
  then obtain a' where "rx_match es b [] [] = Some (a', caps)" "b' = b" "m = []" "a = a'"
    by (auto split: option.splits)
  then show ?case
    using rx_match_sound [of es b "[]" "[]" a caps] by auto
next
  case (Cons c cs)
  show ?case
  proof (cases "rx_match es b (c # cs) []")
    case (Some res)
    with Cons.prems have r: "rx_match es b (c # cs) [] = Some (a, caps)" "b' = b"
      "m = take (length (c # cs) - length a) (c # cs)"
      by (auto split: prod.splits)
    from rx_match_sound [OF r(1)] obtain m' where m': "c # cs = m' @ a" "rx_lang es b m' a" by blast
    then have "m = m'" using r(3) by simp
    then show ?thesis
      using m' r(2) by (intro exI [of _ "[]"]) simp
  next
    case None
    with Cons.prems have "rx_search es (b @ [c]) cs = Some (b', m, a, caps)" by simp
    from Cons.IH [OF this] obtain pre where pre: "b' = (b @ [c]) @ pre" "cs = pre @ m @ a"
      "rx_lang es b' m a"
      "\<forall>pre2 m2 a2. cs = pre2 @ m2 @ a2 \<and> length pre2 < length pre \<longrightarrow> \<not> rx_lang es ((b @ [c]) @ pre2) m2 a2"
      by blast
    have "\<not> rx_lang es (b @ pre2) m2 a2" if h: "c # cs = pre2 @ m2 @ a2" "length pre2 < length (c # pre)" for pre2 m2 a2
    proof (cases pre2)
      case Nil
      show ?thesis
      proof
        assume "rx_lang es (b @ pre2) m2 a2"
        then have "rx_match es b (m2 @ a2) [] \<noteq> None"
          using Nil rx_match_complete by simp
        then show False using h(1) Nil None by simp
      qed
    next
      case (Cons x pre2')
      then have "cs = pre2' @ m2 @ a2" "length pre2' < length pre" "x = c"
        using h by auto
      then show ?thesis
        using pre(4) Cons by simp
    qed
    then show ?thesis
      using pre(1-3) by (intro exI [of _ "c # pre"]) simp
  qed
qed

lemma rx_search_None:
  "rx_search es b r = None \<Longrightarrow> r = pre @ m @ a \<Longrightarrow> \<not> rx_lang es (b @ pre) m a"
proof (induction r arbitrary: b pre)
  case Nil
  then have "rx_match es b [] [] = None" "pre = []" "m = []" "a = []"
    by (auto split: option.splits)
  then show ?case
    using rx_match_complete [of es b "[]" "[]" "[]"] by auto
next
  case (Cons c cs)
  from Cons.prems(1) have n: "rx_match es b (c # cs) [] = None" "rx_search es (b @ [c]) cs = None"
    by (auto split: option.splits)
  show ?case
  proof (cases pre)
    case Nil
    then show ?thesis
      using n(1) Cons.prems(2) rx_match_complete [of es b m a "[]"] by auto
  next
    case (Cons x pre')
    then have "cs = pre' @ m @ a" "x = c" using Cons.prems(2) by auto
    then show ?thesis
      using Cons.IH [OF n(2), of pre'] Cons by simp
  qed
qed

lemma getSubstitution_plain: "0x24 \<notin> set t \<Longrightarrow> getSubstitution m b a caps t = t"
  by (induction m b a caps t rule: getSubstitution.induct) auto

lemma js_replace_cases:
  assumes "0x24 \<notin> set t"
  shows "(\<exists>b m a. c = b @ m @ a \<and> rx_lang re b m a \<and>
            (\<forall>b2 m2 a2. c = b2 @ m2 @ a2 \<and> length b2 < length b \<longrightarrow> \<not> rx_lang re b2 m2 a2) \<and>
            js_replace re c t = b @ t @ a) \<or>
         ((\<forall>b m a. c = b @ m @ a \<longrightarrow> \<not> rx_lang re b m a) \<and> js_replace re c t = c)"
proof (cases "rx_search re [] c")
  case None
  then show ?thesis
    using rx_search_None [of re "[]" c] by (auto simp: js_replace_def)
next
  case (Some res)
  then obtain b m a caps where res: "rx_search re [] c = Some (b, m, a, caps)"
    by (cases res) auto
  from rx_search_Some [OF res] have "c = b @ m @ a" "rx_lang re b m a"
    "\<forall>b2 m2 a2. c = b2 @ m2 @ a2 \<and> length b2 < length b \<longrightarrow> \<not> rx_lang re b2 m2 a2"
    by auto
  moreover have "js_replace re c t = b @ t @ a"
    using res assms by (simp add: js_replace_def getSubstitution_plain)
  ultimately show ?thesis by blast
qed

text \<open>The pattern of the Dockerfile matches exactly the copy directives.\<close>

lemma rx_lang_Lit:
  "rx_lang (Lit s # es) b m a \<longleftrightarrow> (\<exists>y. m = s @ y \<and> rx_lang es (b @ s) y a)"
  by (auto simp: prefix_def)

lemma rx_lang_Group:
  "rx_lang (Group alts # es) b m a \<longleftrightarrow> (\<exists>s\<in>set alts. \<exists>y. m = s @ y \<and> rx_lang es (b @ s) y a)"
  by (simp only: rx_lang.simps prefix_def) (metis append_eq_conv_conj)

lemma rx_lang_Many:
  "rx_lang (Many P n # es) b m a \<longleftrightarrow>
     (\<exists>x y. m = x @ y \<and> n \<le> length x \<and> list_all P x \<and> rx_lang es (b @ x) y a)"
proof
  assume "rx_lang (Many P n # es) b m a"
  then obtain k where "n \<le> k" "k \<le> length m" "list_all P (take k m)"
    "rx_lang es (b @ take k m) (drop k m) a"
    by auto
  then show "\<exists>x y. m = x @ y \<and> n \<le> length x \<and> list_all P x \<and> rx_lang es (b @ x) y a"
    by (intro exI [of _ "take k m"] exI [of _ "drop k m"]) simp
next
  assume "\<exists>x y. m = x @ y \<and> n \<le> length x \<and> list_all P x \<and> rx_lang es (b @ x) y a"
  then obtain x y where "m = x @ y" "n \<le> length x" "list_all P x" "rx_lang es (b @ x) y a"
    by blast
  then show "rx_lang (Many P n # es) b m a"
    by (auto intro!: bexI [of _ "length x"])
qed

lemma docker_lang_parts:
  assumes "rx_lang dockerRegex b m a"
  obtains kw ws1 name ext ws2 rest where
    "b = [] \<or> isLineTerminator (last b)" "m = kw @ ws1 @ name @ js ''.'' @ ext @ ws2 @ rest"
    "kw = js ''COPY'' \<or> kw = js ''ADD''"
    "ws1 \<noteq> []" "list_all isWhiteSpace ws1" "name \<noteq> []" "list_all notSpace name"
    "ext = js ''jar'' \<or> ext = js ''sh''" "ws2 \<noteq> []" "list_all isWhiteSpace ws2"
    "list_all notLineTerminator rest" "a = [] \<or> isLineTerminator (hd a)"
proof -
  from assms obtain kw ws1 name ext ws2 rest where
    f: "b = [] \<or> isLineTerminator (last b)" "m = kw @ ws1 @ name @ js ''.'' @ ext @ ws2 @ rest"
    "kw \<in> set [js ''COPY'', js ''ADD'']"
    "1 \<le> length ws1" "list_all isWhiteSpace ws1" "1 \<le> length name" "list_all notSpace name"
    "ext \<in> set [js ''jar'', js ''sh'']" "1 \<le> length ws2" "list_all isWhiteSpace ws2"
    "list_all notLineTerminator rest" "a = [] \<or> isLineTerminator (hd a)"
    unfolding dockerRegex_def rx_lang_Lit rx_lang_Group rx_lang_Many rx_lang.simps(1-4)
    by (elim conjE exE bexE) simp
  have g1: "kw = js ''COPY'' \<or> kw = js ''ADD''" using f(3) by simp
  have g2: "ws1 \<noteq> []" using f(4) by (simp add: Suc_le_eq)
  have g3: "name \<noteq> []" using f(6) by (simp add: Suc_le_eq)
  have g4: "ext = js ''jar'' \<or> ext = js ''sh''" using f(8) by simp
  have g5: "ws2 \<noteq> []" using f(9) by (simp add: Suc_le_eq)
  show thesis
    by (rule that [OF f(1) f(2) g1 g2 f(5) g3 f(7) g4 g5 f(10) f(11) f(12)])
qed

lemma docker_lang_built:
  assumes "b = [] \<or> isLineTerminator (last b)" and "a = [] \<or> isLineTerminator (hd a)"
    and "kw = js ''COPY'' \<or> kw = js ''ADD''"
    and "ws1 \<noteq> []" and "list_all isWhiteSpace ws1" and "name \<noteq> []" and "list_all notSpace name"
    and "ext = js ''jar'' \<or> ext = js ''sh''" and "ws2 \<noteq> []" and "list_all isWhiteSpace ws2"
    and "list_all notLineTerminator rest"
  shows "rx_lang dockerRegex b (kw @ ws1 @ name @ js ''.'' @ ext @ ws2 @ rest) a"
proof -
  have l: "1 \<le> length ws1" "1 \<le> length name" "1 \<le> length ws2"
    using assms(4,6,9) by (simp_all add: Suc_le_eq)
  have 1: "rx_lang [Eol] (b @ kw @ ws1 @ name @ js ''.'' @ ext @ ws2 @ rest) [] a"
    using assms(2) by simp
  have 2: "rx_lang [Many notLineTerminator 0, Eol] (b @ kw @ ws1 @ name @ js ''.'' @ ext @ ws2) rest a"
    unfolding rx_lang_Many
    using 1 assms(11) by (intro exI [of _ rest] exI [of _ "[]"]) (simp del: rx_lang.simps)
  have 3: "rx_lang [Many isWhiteSpace 1, Many notLineTerminator 0, Eol]
      (b @ kw @ ws1 @ name @ js ''.'' @ ext) (ws2 @ rest) a"
    unfolding rx_lang_Many [of isWhiteSpace]
    using 2 assms(10) l(3) by (intro exI [of _ ws2] exI [of _ rest]) (simp del: rx_lang.simps)
  have 4: "rx_lang [Group [js ''jar'', js ''sh''], Many isWhiteSpace 1, Many notLineTerminator 0, Eol]
      (b @ kw @ ws1 @ name @ js ''.'') (ext @ ws2 @ rest) a"
    unfolding rx_lang_Group
    using 3 assms(8) by (intro bexI [of _ ext] exI [of _ "ws2 @ rest"]) (auto simp del: rx_lang.simps)
  have 5: "rx_lang [Lit (js ''.''), Group [js ''jar'', js ''sh''], Many isWhiteSpace 1,
      Many notLineTerminator 0, Eol]
      (b @ kw @ ws1 @ name) (js ''.'' @ ext @ ws2 @ rest) a"
    unfolding rx_lang_Lit
    using 4 by (intro exI [of _ "ext @ ws2 @ rest"]) (simp del: rx_lang.simps)
  have 6: "rx_lang [Many notSpace 1, Lit (js ''.''), Group [js ''jar'', js ''sh''], Many isWhiteSpace 1,
      Many notLineTerminator 0, Eol]
      (b @ kw @ ws1) (name @ js ''.'' @ ext @ ws2 @ rest) a"
    unfolding rx_lang_Many [of notSpace]
    using 5 assms(7) l(2) by (intro exI [of _ name] exI [of _ "js ''.'' @ ext @ ws2 @ rest"]) (simp del: rx_lang.simps)
  have 7: "rx_lang [Many isWhiteSpace 1, Many notSpace 1, Lit (js ''.''), Group [js ''jar'', js ''sh''],
      Many isWhiteSpace 1, Many notLineTerminator 0, Eol]
      (b @ kw) (ws1 @ name @ js ''.'' @ ext @ ws2 @ rest) a"
    unfolding rx_lang_Many [of isWhiteSpace 1 "Many notSpace 1 # _"]
    using 6 assms(5) l(1) by (intro exI [of _ ws1] exI [of _ "name @ js ''.'' @ ext @ ws2 @ rest"]) (simp del: rx_lang.simps)
  have 8: "rx_lang [Group [js ''COPY'', js ''ADD''], Many isWhiteSpace 1, Many notSpace 1, Lit (js ''.''),
      Group [js ''jar'', js ''sh''], Many isWhiteSpace 1, Many notLineTerminator 0, Eol]
      b (kw @ ws1 @ name @ js ''.'' @ ext @ ws2 @ rest) a"
    unfolding rx_lang_Group [of "[js ''COPY'', js ''ADD'']"]
    using 7 assms(3) by (intro bexI [of _ kw] exI [of _ "ws1 @ name @ js ''.'' @ ext @ ws2 @ rest"]) (auto simp del: rx_lang.simps)
  show ?thesis
    unfolding dockerRegex_def rx_lang.simps(2)
    using assms(1) 8 by (rule conjI)
qed



lemma docker_lang_explicit:
  "rx_lang dockerRegex b m a \<longleftrightarrow>
     (b = [] \<or> isLineTerminator (last b)) \<and> (a = [] \<or> isLineTerminator (hd a)) \<and>
     (\<exists>kw ws1 name ext ws2 rest.
        m = kw @ ws1 @ name @ js ''.'' @ ext @ ws2 @ rest \<and>
        (kw = js ''COPY'' \<or> kw = js ''ADD'') \<and>
        ws1 \<noteq> [] \<and> list_all isWhiteSpace ws1 \<and>
        name \<noteq> [] \<and> list_all notSpace name \<and>
        (ext = js ''jar'' \<or> ext = js ''sh'') \<and>
        ws2 \<noteq> [] \<and> list_all isWhiteSpace ws2 \<and>
        list_all notLineTerminator rest)"
  (is "?L \<longleftrightarrow> ?B \<and> ?A \<and> ?D")
proof
  assume ?L
  then obtain kw ws1 name ext ws2 rest where
    f: "b = [] \<or> isLineTerminator (last b)" "m = kw @ ws1 @ name @ js ''.'' @ ext @ ws2 @ rest"
    "kw = js ''COPY'' \<or> kw = js ''ADD''"
    "ws1 \<noteq> []" "list_all isWhiteSpace ws1" "name \<noteq> []" "list_all notSpace name"
    "ext = js ''jar'' \<or> ext = js ''sh''" "ws2 \<noteq> []" "list_all isWhiteSpace ws2"
    "list_all notLineTerminator rest" "a = [] \<or> isLineTerminator (hd a)"
    by (rule docker_lang_parts)
  have ?D
  proof (intro exI conjI)
    show "m = kw @ ws1 @ name @ js ''.'' @ ext @ ws2 @ rest" by (rule f(2))
    show "kw = js ''COPY'' \<or> kw = js ''ADD''" by (rule f(3))
    show "ws1 \<noteq> []" by (rule f(4))
    show "list_all isWhiteSpace ws1" by (rule f(5))
    show "name \<noteq> []" by (rule f(6))
    show "list_all notSpace name" by (rule f(7))
    show "ext = js ''jar'' \<or> ext = js ''sh''" by (rule f(8))
    show "ws2 \<noteq> []" by (rule f(9))
    show "list_all isWhiteSpace ws2" by (rule f(10))
    show "list_all notLineTerminator rest" by (rule f(11))
  qed
  with f(1,12) show "?B \<and> ?A \<and> ?D"
    by (intro conjI)
next
  assume r: "?B \<and> ?A \<and> ?D"
  then have B: ?B and A: ?A and D: ?D
    by (rule conjunct1, rule conjunct1 [OF conjunct2], rule conjunct2 [OF conjunct2])
  from D obtain kw ws1 name ext ws2 rest where
    d: "m = kw @ ws1 @ name @ js ''.'' @ ext @ ws2 @ rest"
    and e: "kw = js ''COPY'' \<or> kw = js ''ADD''"
    "ws1 \<noteq> []" "list_all isWhiteSpace ws1" "name \<noteq> []" "list_all notSpace name"
    "ext = js ''jar'' \<or> ext = js ''sh''" "ws2 \<noteq> []" "list_all isWhiteSpace ws2"
    "list_all notLineTerminator rest"
    by (elim exE conjE)
  show ?L
    unfolding d using B A e by (rule docker_lang_built)
qed

lemma docker_lang_iff: "rx_lang dockerRegex b m a \<longleftrightarrow> copyDirective b m a"
  unfolding copyDirective_def by (rule docker_lang_explicit)

text \<open>
  A repetition settles on the longest run with which the rest of the pattern matches, so
  the match that is found at a position is the preferred copy directive there, and the
  search settles on exactly one directive.
\<close>

lemma firstSome_rev_upt:
  "firstSome (map f (rev [n ..< m])) = Some y \<Longrightarrow>
   \<exists>k. n \<le> k \<and> k < m \<and> f k = Some y \<and> (\<forall>k'. k < k' \<and> k' < m \<longrightarrow> f k' = None)"
proof (induction m)
  case 0
  then show ?case by simp
next
  case (Suc m)
  show ?case
  proof (cases "n \<le> m")
    case False
    then show ?thesis using Suc.prems by simp
  next
    case True
    then have l: "map f (rev [n ..< Suc m]) = f m # map f (rev [n ..< m])"
      by simp
    show ?thesis
    proof (cases "f m")
      case (Some z)
      then have "z = y" using Suc.prems l by simp
      then show ?thesis
        using Some True by (intro exI [of _ m]) auto
    next
      case None
      then have "firstSome (map f (rev [n ..< m])) = Some y"
        using Suc.prems l by simp
      from Suc.IH [OF this] obtain k where
        k: "n \<le> k" "k < m" "f k = Some y" "\<forall>k'. k < k' \<and> k' < m \<longrightarrow> f k' = None"
        by blast
      have "f k' = None" if "k < k'" "k' < Suc m" for k'
        using that k(4) None by (cases "k' = m") auto
      then show ?thesis
        using k(1-3) by (intro exI [of _ k]) auto
    qed
  qed
qed

lemma many_greedy:
  assumes "rx_match (Many P n # es) b r caps = Some (a, caps')"
  shows "\<exists>x y. r = x @ y \<and> n \<le> length x \<and> list_all P x \<and>
           rx_match es (b @ x) y caps = Some (a, caps') \<and>
           (\<forall>x' m' a'. r = x' @ m' @ a' \<and> list_all P x' \<and> length x < length x' \<longrightarrow>
              \<not> rx_lang es (b @ x') m' a')"
proof -
  let ?N = "length (takeWhile P r)"
  let ?f = "\<lambda>k. rx_match es (b @ take k r) (drop k r) caps"
  from assms have "firstSome (map ?f (rev [n ..< Suc ?N])) = Some (a, caps')"
    by (simp del: upt_Suc)
  from firstSome_rev_upt [OF this] obtain k where
    k: "n \<le> k" "k < Suc ?N" "?f k = Some (a, caps')" "\<forall>k'. k < k' \<and> k' < Suc ?N \<longrightarrow> ?f k' = None"
    by blast
  have kr: "k \<le> length r"
    using k(2) length_takeWhile_le [of P r] by simp
  have p: "list_all P (take k r)"
    using k(2) by (intro take_takeWhile_all) simp
  have g: "\<not> rx_lang es (b @ x') m' a'"
    if h: "r = x' @ m' @ a'" "list_all P x'" "length (take k r) < length x'" for x' m' a'
  proof
    assume l: "rx_lang es (b @ x') m' a'"
    have "list_all P (take (length x') r)" using h(1,2) by simp
    then have "length x' \<le> ?N"
      using h(1) by (intro all_take_le_takeWhile) simp_all
    moreover have "k < length x'" using h(3) kr by simp
    ultimately have "?f (length x') = None" using k(4) by simp
    then have "rx_match es (b @ x') (m' @ a') caps = None" using h(1) by simp
    then show False using rx_match_complete [OF l, of caps] by simp
  qed
  show ?thesis
    using k(1,3) kr p g
    by (intro exI [of _ "take k r"] exI [of _ "drop k r"]) (simp del: rx_lang.simps rx_match.simps)
qed

lemma group_step:
  assumes "rx_match (Group alts # es) b r caps = Some res"
  shows "\<exists>s\<in>set alts. \<exists>y. r = s @ y \<and> rx_match es (b @ s) y (caps @ [s]) = Some res"
proof -
  let ?f = "\<lambda>s. if prefix s r then rx_match es (b @ s) (drop (length s) r) (caps @ [s]) else None"
  from assms have "firstSome (map ?f alts) = Some res" by simp
  then have "Some res \<in> set (map ?f alts)" by (rule firstSome_Some)
  then obtain s where s: "s \<in> set alts" "?f s = Some res" by auto
  then have "prefix s r" "rx_match es (b @ s) (drop (length s) r) (caps @ [s]) = Some res"
    by (auto split: if_splits)
  then obtain y where "r = s @ y" "rx_match es (b @ s) y (caps @ [s]) = Some res"
    by (auto simp: prefix_def simp del: rx_match.simps)
  then show ?thesis
    using s(1) by blast
qed

lemma lit_step:
  assumes "rx_match (Lit s # es) b r caps = Some res"
  shows "\<exists>y. r = s @ y \<and> rx_match es (b @ s) y caps = Some res"
proof -
  from assms have "prefix s r" "rx_match es (b @ s) (drop (length s) r) caps = Some res"
    by (auto split: if_splits)
  then show ?thesis
    by (auto simp: prefix_def simp del: rx_match.simps)
qed

lemma tail4:
  assumes "list_all notLineTerminator rest" and "a = [] \<or> isLineTerminator (hd a)"
  shows "rx_lang [Many notLineTerminator 0, Eol] bb rest a"
  unfolding rx_lang_Many
  using assms by (intro exI [of _ rest] exI [of _ "[]"]) simp

lemma tail3:
  assumes "ws2 \<noteq> []" and "list_all isWhiteSpace ws2"
    and "list_all notLineTerminator rest" and "a = [] \<or> isLineTerminator (hd a)"
  shows "rx_lang [Many isWhiteSpace 1, Many notLineTerminator 0, Eol] bb (ws2 @ rest) a"
proof -
  have "1 \<le> length ws2" using assms(1) by (simp add: Suc_le_eq)
  then show ?thesis
    unfolding rx_lang_Many [of isWhiteSpace]
    using assms(2) tail4 [OF assms(3,4), of "bb @ ws2"]
    by (intro exI [of _ ws2] exI [of _ rest]) (simp del: rx_lang.simps)
qed

lemma tail2:
  assumes "ext = js ''jar'' \<or> ext = js ''sh''" and "ws2 \<noteq> []" and "list_all isWhiteSpace ws2"
    and "list_all notLineTerminator rest" and "a = [] \<or> isLineTerminator (hd a)"
  shows "rx_lang [Lit (js ''.''), Group [js ''jar'', js ''sh''], Many isWhiteSpace 1,
           Many notLineTerminator 0, Eol] bb (js ''.'' @ ext @ ws2 @ rest) a"
proof -
  have "rx_lang [Group [js ''jar'', js ''sh''], Many isWhiteSpace 1, Many notLineTerminator 0, Eol]
          (bb @ js ''.'') (ext @ ws2 @ rest) a"
    unfolding rx_lang_Group
    using assms(1) tail3 [OF assms(2-5), of "(bb @ js ''.'') @ ext"]
    by (intro bexI [of _ ext] exI [of _ "ws2 @ rest"]) (auto simp del: rx_lang.simps)
  then show ?thesis
    unfolding rx_lang_Lit
    by (intro exI [of _ "ext @ ws2 @ rest"]) (simp del: rx_lang.simps)
qed

lemma tail1:
  assumes "name \<noteq> []" and "list_all notSpace name"
    and "ext = js ''jar'' \<or> ext = js ''sh''" and "ws2 \<noteq> []" and "list_all isWhiteSpace ws2"
    and "list_all notLineTerminator rest" and "a = [] \<or> isLineTerminator (hd a)"
  shows "rx_lang [Many notSpace 1, Lit (js ''.''), Group [js ''jar'', js ''sh''], Many isWhiteSpace 1,
           Many notLineTerminator 0, Eol] bb (name @ js ''.'' @ ext @ ws2 @ rest) a"
proof -
  have "1 \<le> length name" using assms(1) by (simp add: Suc_le_eq)
  then show ?thesis
    unfolding rx_lang_Many [of notSpace]
    using assms(2) tail2 [OF assms(3-7), of "bb @ name"]
    by (intro exI [of _ name] exI [of _ "js ''.'' @ ext @ ws2 @ rest"]) (simp del: rx_lang.simps)
qed

lemma kw_unique:
  assumes "kw = js ''COPY'' \<or> kw = js ''ADD''" and "kw' = js ''COPY'' \<or> kw' = js ''ADD''"
    and "kw @ x = kw' @ x'"
  shows "kw = kw' \<and> x = x'"
  using assms by (auto simp: js_def)

lemma ext_unique:
  assumes "ext = js ''jar'' \<or> ext = js ''sh''" and "ext' = js ''jar'' \<or> ext' = js ''sh''"
    and "ext @ x = ext' @ x'"
  shows "ext = ext' \<and> x = x'"
  using assms by (auto simp: js_def)

lemma same_length_split: "x @ y = x' @ y' \<Longrightarrow> length x = length x' \<Longrightarrow> x = x' \<and> y = y'"
  by simp

lemma bol_step:
  "rx_match (Bol # es) b r caps = Some res \<Longrightarrow>
   (b = [] \<or> isLineTerminator (last b)) \<and> rx_match es b r caps = Some res"
  by (simp split: if_splits)

lemma eol_step:
  "rx_match [Eol] b r caps = Some (a, caps') \<Longrightarrow> r = a \<and> (a = [] \<or> isLineTerminator (hd a))"
  by (auto split: if_splits)

lemma docker_match_greedy:
  assumes "rx_match dockerRegex b r [] = Some (a, caps)"
  shows "\<exists>kw ws1 name ext ws2 rest.
     r = kw @ ws1 @ name @ js ''.'' @ ext @ ws2 @ rest @ a \<and>
     (b = [] \<or> isLineTerminator (last b)) \<and> (a = [] \<or> isLineTerminator (hd a)) \<and>
     directiveParts kw ws1 name ext ws2 rest \<and>
     (\<forall>kw' ws1' name' ext' ws2' rest' a'.
        r = kw' @ ws1' @ name' @ js ''.'' @ ext' @ ws2' @ rest' @ a' \<and>
        (a' = [] \<or> isLineTerminator (hd a')) \<and>
        directiveParts kw' ws1' name' ext' ws2' rest' \<longrightarrow>
        choiceLe ws1' name' ws2' rest' ws1 name ws2 rest)"
proof -
  let ?es4 = "[Many notLineTerminator 0, Eol]"
  let ?es3 = "Many isWhiteSpace 1 # ?es4"
  let ?es2 = "Lit (js ''.'') # Group [js ''jar'', js ''sh''] # ?es3"
  let ?es1 = "Many notSpace 1 # ?es2"
  let ?es0 = "Many isWhiteSpace 1 # ?es1"
  from bol_step [OF assms [unfolded dockerRegex_def]] have
    B: "b = [] \<or> isLineTerminator (last b)"
    and m0: "rx_match (Group [js ''COPY'', js ''ADD''] # ?es0) b r [] = Some (a, caps)"
    by blast+
  from group_step [OF m0] obtain kw y0 where
    kw: "kw \<in> set [js ''COPY'', js ''ADD'']" "r = kw @ y0"
    and m1: "rx_match ?es0 (b @ kw) y0 ([] @ [kw]) = Some (a, caps)"
    by blast
  from many_greedy [OF m1] obtain ws1 y1 where
    ws1: "y0 = ws1 @ y1" "1 \<le> length ws1" "list_all isWhiteSpace ws1"
    and m2: "rx_match ?es1 ((b @ kw) @ ws1) y1 ([] @ [kw]) = Some (a, caps)"
    and g1: "\<forall>x' m' a'. y0 = x' @ m' @ a' \<and> list_all isWhiteSpace x' \<and> length ws1 < length x' \<longrightarrow>
              \<not> rx_lang ?es1 ((b @ kw) @ x') m' a'"
    by blast
  from many_greedy [OF m2] obtain name y2 where
    name: "y1 = name @ y2" "1 \<le> length name" "list_all notSpace name"
    and m3: "rx_match ?es2 (((b @ kw) @ ws1) @ name) y2 ([] @ [kw]) = Some (a, caps)"
    and g2: "\<forall>x' m' a'. y1 = x' @ m' @ a' \<and> list_all notSpace x' \<and> length name < length x' \<longrightarrow>
              \<not> rx_lang ?es2 (((b @ kw) @ ws1) @ x') m' a'"
    by blast
  from lit_step [OF m3] obtain y3 where
    y3: "y2 = js ''.'' @ y3"
    and m4: "rx_match (Group [js ''jar'', js ''sh''] # ?es3) ((((b @ kw) @ ws1) @ name) @ js ''.'') y3
               ([] @ [kw]) = Some (a, caps)"
    by blast
  from group_step [OF m4] obtain ext y4 where
    ext: "ext \<in> set [js ''jar'', js ''sh'']" "y3 = ext @ y4"
    and m5: "rx_match ?es3 (((((b @ kw) @ ws1) @ name) @ js ''.'') @ ext) y4 (([] @ [kw]) @ [ext])
               = Some (a, caps)"
    by blast
  from many_greedy [OF m5] obtain ws2 y5 where
    ws2: "y4 = ws2 @ y5" "1 \<le> length ws2" "list_all isWhiteSpace ws2"
    and m6: "rx_match ?es4 ((((((b @ kw) @ ws1) @ name) @ js ''.'') @ ext) @ ws2) y5 (([] @ [kw]) @ [ext])
               = Some (a, caps)"
    and g3: "\<forall>x' m' a'. y4 = x' @ m' @ a' \<and> list_all isWhiteSpace x' \<and> length ws2 < length x' \<longrightarrow>
              \<not> rx_lang ?es4 ((((((b @ kw) @ ws1) @ name) @ js ''.'') @ ext) @ x') m' a'"
    by blast
  from many_greedy [OF m6] obtain rest y6 where
    rest: "y5 = rest @ y6" "list_all notLineTerminator rest"
    and m7: "rx_match [Eol] (((((((b @ kw) @ ws1) @ name) @ js ''.'') @ ext) @ ws2) @ rest) y6
               (([] @ [kw]) @ [ext]) = Some (a, caps)"
    and g4: "\<forall>x' m' a'. y5 = x' @ m' @ a' \<and> list_all notLineTerminator x' \<and> length rest < length x' \<longrightarrow>
              \<not> rx_lang [Eol] (((((((b @ kw) @ ws1) @ name) @ js ''.'') @ ext) @ ws2) @ x') m' a'"
    by blast
  from eol_step [OF m7] have y6: "y6 = a" and A: "a = [] \<or> isLineTerminator (hd a)"
    by blast+
  have r: "r = kw @ ws1 @ name @ js ''.'' @ ext @ ws2 @ rest @ a"
    by (simp only: kw(2) ws1(1) name(1) y3 ext(2) ws2(1) rest(1) y6)
  have kwc: "kw = js ''COPY'' \<or> kw = js ''ADD''" using kw(1) by simp
  have extc: "ext = js ''jar'' \<or> ext = js ''sh''" using ext(1) by simp
  have ne: "ws1 \<noteq> []" "name \<noteq> []" "ws2 \<noteq> []"
    using ws1(2) name(2) ws2(2) by (simp_all add: Suc_le_eq)
  have parts: "directiveParts kw ws1 name ext ws2 rest"
    unfolding directiveParts_def
    using kwc ne ws1(3) name(3) extc ws2(3) rest(2) by (intro conjI)
  have le: "choiceLe ws1' name' ws2' rest' ws1 name ws2 rest"
    if e: "r = kw' @ ws1' @ name' @ js ''.'' @ ext' @ ws2' @ rest' @ a'"
      and a': "a' = [] \<or> isLineTerminator (hd a')"
      and p': "directiveParts kw' ws1' name' ext' ws2' rest'"
    for kw' ws1' name' ext' ws2' rest' a'
  proof -
    from p' have q: "kw' = js ''COPY'' \<or> kw' = js ''ADD''"
      "ws1' \<noteq> []" "list_all isWhiteSpace ws1'" "name' \<noteq> []" "list_all notSpace name'"
      "ext' = js ''jar'' \<or> ext' = js ''sh''" "ws2' \<noteq> []" "list_all isWhiteSpace ws2'"
      "list_all notLineTerminator rest'"
      unfolding directiveParts_def by blast+
    from kw_unique [OF kwc q(1)] r e have
      e0: "y0 = ws1' @ (name' @ js ''.'' @ ext' @ ws2' @ rest') @ a'"
      using kw(2) by simp
    have l1: "\<not> length ws1 < length ws1'"
      using g1 e0 q(3) tail1 [OF q(4-9) a'] by blast
    show ?thesis
    proof (cases "length ws1' = length ws1")
      case False
      then show ?thesis using l1 by (simp add: choiceLe_def)
    next
      case True
      with e0 ws1(1) have e1: "y1 = name' @ (js ''.'' @ ext' @ ws2' @ rest') @ a'"
        by simp
      have l2: "\<not> length name < length name'"
        using g2 e1 q(5) tail2 [OF q(6-9) a'] by blast
      show ?thesis
      proof (cases "length name' = length name")
        case False
        then show ?thesis using l2 True by (simp add: choiceLe_def)
      next
        case n: True
        with e1 name(1) have "y2 = js ''.'' @ ext' @ ws2' @ rest' @ a'"
          by simp
        then have "y3 = ext' @ ws2' @ rest' @ a'" using y3 by simp
        with ext_unique [OF extc q(6)] ext(2) have e4: "y4 = ws2' @ rest' @ a'"
          by simp
        have l3: "\<not> length ws2 < length ws2'"
          using g3 e4 q(8) tail4 [OF q(9) a'] by blast
        show ?thesis
        proof (cases "length ws2' = length ws2")
          case False
          then show ?thesis using l3 True n by (simp add: choiceLe_def)
        next
          case w: True
          with e4 ws2(1) have e5: "y5 = rest' @ [] @ a'"
            by simp
          have "rx_lang [Eol] bb [] a'" for bb
            using a' by simp
          then have "\<not> length rest < length rest'"
            using g4 e5 q(9) by blast
          then show ?thesis using True n w by (simp add: choiceLe_def)
        qed
      qed
    qed
  qed
  show ?thesis
    using r B A parts le by blast
qed

lemma rx_search_match:
  "rx_search es b0 r = Some (b, m, a, caps) \<Longrightarrow> rx_match es b (m @ a) [] = Some (a, caps)"
proof (induction r arbitrary: b0)
  case Nil
  then have r: "rx_match es b0 [] [] = Some (a, caps)" "b = b0" "m = []"
    by (auto split: option.splits)
  from rx_match_sound [OF r(1)] have "a = []" by simp
  then show ?case using r by simp
next
  case (Cons c cs)
  show ?case
  proof (cases "rx_match es b0 (c # cs) []")
    case (Some res)
    with Cons.prems have r: "rx_match es b0 (c # cs) [] = Some (a, caps)" "b = b0"
      "m = take (length (c # cs) - length a) (c # cs)"
      by (auto split: prod.splits)
    from rx_match_sound [OF r(1)] obtain m' where "c # cs = m' @ a" by blast
    then have "m @ a = c # cs" using r(3) by simp
    then show ?thesis using r(1,2) by simp
  next
    case None
    with Cons.prems have "rx_search es (b0 @ [c]) cs = Some (b, m, a, caps)" by simp
    then show ?thesis by (rule Cons.IH)
  qed
qed

lemma parts_copyDirective:
  assumes "directiveParts kw ws1 name ext ws2 rest"
    and "b = [] \<or> isLineTerminator (last b)" and "a = [] \<or> isLineTerminator (hd a)"
  shows "copyDirective b (kw @ ws1 @ name @ js ''.'' @ ext @ ws2 @ rest) a"
proof -
  have "\<exists>kw' ws1' name' ext' ws2' rest'.
         kw @ ws1 @ name @ js ''.'' @ ext @ ws2 @ rest = kw' @ ws1' @ name' @ js ''.'' @ ext' @ ws2' @ rest' \<and>
         (kw' = js ''COPY'' \<or> kw' = js ''ADD'') \<and>
         ws1' \<noteq> [] \<and> list_all isWhiteSpace ws1' \<and>
         name' \<noteq> [] \<and> list_all notSpace name' \<and>
         (ext' = js ''jar'' \<or> ext' = js ''sh'') \<and>
         ws2' \<noteq> [] \<and> list_all isWhiteSpace ws2' \<and>
         list_all notLineTerminator rest'"
    using assms(1) unfolding directiveParts_def
    by (intro exI [of _ kw] exI [of _ ws1] exI [of _ name] exI [of _ ext] exI [of _ ws2] exI [of _ rest])
       (rule conjI [OF refl])
  then show ?thesis
    unfolding copyDirective_def using assms(2,3) by (intro conjI)
qed

lemma choiceLe_antisym:
  assumes "choiceLe ws1' name' ws2' rest' ws1 name ws2 rest"
    and "choiceLe ws1 name ws2 rest ws1' name' ws2' rest'"
  shows "length ws1' = length ws1 \<and> length name' = length name \<and>
         length ws2' = length ws2 \<and> length rest' = length rest"
  using assms unfolding choiceLe_def by linarith

lemma chosen_unique:
  assumes "chosenDirective c b kw ws1 name ext ws2 rest a"
    and "chosenDirective c b' kw' ws1' name' ext' ws2' rest' a'"
  shows "b = b' \<and> a = a'"
proof -
  let ?m = "kw @ ws1 @ name @ js ''.'' @ ext @ ws2 @ rest"
  let ?m' = "kw' @ ws1' @ name' @ js ''.'' @ ext' @ ws2' @ rest'"
  from assms(1) have c: "c = b @ ?m @ a"
    and B: "b = [] \<or> isLineTerminator (last b)" and A: "a = [] \<or> isLineTerminator (hd a)"
    and P: "directiveParts kw ws1 name ext ws2 rest"
    and L: "\<forall>b2 m2 a2. c = b2 @ m2 @ a2 \<and> length b2 < length b \<longrightarrow> \<not> copyDirective b2 m2 a2"
    and G: "\<forall>kw' ws1' name' ext' ws2' rest' a'.
         kw @ ws1 @ name @ js ''.'' @ ext @ ws2 @ rest @ a =
           kw' @ ws1' @ name' @ js ''.'' @ ext' @ ws2' @ rest' @ a' \<and>
         (a' = [] \<or> isLineTerminator (hd a')) \<and>
         directiveParts kw' ws1' name' ext' ws2' rest' \<longrightarrow>
         choiceLe ws1' name' ws2' rest' ws1 name ws2 rest"
    unfolding chosenDirective_def by simp_all
  from assms(2) have c': "c = b' @ ?m' @ a'"
    and B': "b' = [] \<or> isLineTerminator (last b')" and A': "a' = [] \<or> isLineTerminator (hd a')"
    and P': "directiveParts kw' ws1' name' ext' ws2' rest'"
    and L': "\<forall>b2 m2 a2. c = b2 @ m2 @ a2 \<and> length b2 < length b' \<longrightarrow> \<not> copyDirective b2 m2 a2"
    and G': "\<forall>kw'' ws1'' name'' ext'' ws2'' rest'' a''.
         kw' @ ws1' @ name' @ js ''.'' @ ext' @ ws2' @ rest' @ a' =
           kw'' @ ws1'' @ name'' @ js ''.'' @ ext'' @ ws2'' @ rest'' @ a'' \<and>
         (a'' = [] \<or> isLineTerminator (hd a'')) \<and>
         directiveParts kw'' ws1'' name'' ext'' ws2'' rest'' \<longrightarrow>
         choiceLe ws1'' name'' ws2'' rest'' ws1' name' ws2' rest'"
    unfolding chosenDirective_def by simp_all
  have D: "copyDirective b ?m a" using P B A by (rule parts_copyDirective)
  have D': "copyDirective b' ?m' a'" using P' B' A' by (rule parts_copyDirective)
  have "\<not> length b' < length b" using L c' D' by blast
  moreover have "\<not> length b < length b'" using L' c D by blast
  ultimately have lb: "length b = length b'" by simp
  from c c' have "b @ (?m @ a) = b' @ (?m' @ a')" by simp
  with lb have bb: "b = b'" and e: "?m @ a = ?m' @ a'"
    by simp_all
  have e1: "kw @ ws1 @ name @ js ''.'' @ ext @ ws2 @ rest @ a =
           kw' @ ws1' @ name' @ js ''.'' @ ext' @ ws2' @ rest' @ a'"
    using e by simp
  have "choiceLe ws1' name' ws2' rest' ws1 name ws2 rest"
    using G e1 A' P' by blast
  moreover have "choiceLe ws1 name ws2 rest ws1' name' ws2' rest'"
    using G' e1 [symmetric] A P by blast
  ultimately have len: "length ws1' = length ws1" "length name' = length name"
    "length ws2' = length ws2" "length rest' = length rest"
    using choiceLe_antisym by blast+
  from P have kwc: "kw = js ''COPY'' \<or> kw = js ''ADD''" and extc: "ext = js ''jar'' \<or> ext = js ''sh''"
    unfolding directiveParts_def by blast+
  from P' have kwc': "kw' = js ''COPY'' \<or> kw' = js ''ADD''" and extc': "ext' = js ''jar'' \<or> ext' = js ''sh''"
    unfolding directiveParts_def by blast+
  from kw_unique [OF kwc kwc' e1] have
    e2: "ws1 @ name @ js ''.'' @ ext @ ws2 @ rest @ a = ws1' @ name' @ js ''.'' @ ext' @ ws2' @ rest' @ a'"
    by blast
  from same_length_split [OF e2 len(1) [symmetric]] have
    e3: "name @ js ''.'' @ ext @ ws2 @ rest @ a = name' @ js ''.'' @ ext' @ ws2' @ rest' @ a'"
    by blast
  from same_length_split [OF e3 len(2) [symmetric]] have
    "js ''.'' @ ext @ ws2 @ rest @ a = js ''.'' @ ext' @ ws2' @ rest' @ a'"
    by blast
  then have e4: "ext @ ws2 @ rest @ a = ext' @ ws2' @ rest' @ a'"
    by simp
  from ext_unique [OF extc extc' e4] have e5: "ws2 @ rest @ a = ws2' @ rest' @ a'"
    by blast
  from same_length_split [OF e5 len(3) [symmetric]] have e6: "rest @ a = rest' @ a'"
    by blast
  from same_length_split [OF e6 len(4) [symmetric]] have "a = a'"
    by blast
  with bb show ?thesis by simp
qed

lemma docker_search_chosen:
  assumes "rx_search dockerRegex [] c = Some (b, m, a, caps)"
  shows "\<exists>kw ws1 name ext ws2 rest. chosenDirective c b kw ws1 name ext ws2 rest a"
proof -
  from rx_search_Some [OF assms] have c: "c = b @ m @ a"
    and L: "\<forall>b2 m2 a2. c = b2 @ m2 @ a2 \<and> length b2 < length b \<longrightarrow> \<not> copyDirective b2 m2 a2"
    by (auto simp: docker_lang_iff simp del: rx_lang.simps)
  from docker_match_greedy [OF rx_search_match [OF assms]] obtain kw ws1 name ext ws2 rest where
    p: "m @ a = kw @ ws1 @ name @ js ''.'' @ ext @ ws2 @ rest @ a"
     "b = [] \<or> isLineTerminator (last b)" "a = [] \<or> isLineTerminator (hd a)"
     "directiveParts kw ws1 name ext ws2 rest"
     "\<forall>kw' ws1' name' ext' ws2' rest' a'.
        m @ a = kw' @ ws1' @ name' @ js ''.'' @ ext' @ ws2' @ rest' @ a' \<and>
        (a' = [] \<or> isLineTerminator (hd a')) \<and>
        directiveParts kw' ws1' name' ext' ws2' rest' \<longrightarrow>
        choiceLe ws1' name' ws2' rest' ws1 name ws2 rest"
    by blast
  have "chosenDirective c b kw ws1 name ext ws2 rest a"
    unfolding chosenDirective_def
    using c p(1) p(2-4) L p(5) [unfolded p(1)] by (intro conjI) simp_all
  then show ?thesis by blast
qed

lemma docker_replace:
  assumes "0x24 \<notin> set t"
  shows "((\<forall>b m a. c = b @ m @ a \<longrightarrow> \<not> copyDirective b m a) \<longrightarrow> js_replace dockerRegex c t = c) \<and>
     ((\<exists>b m a. c = b @ m @ a \<and> copyDirective b m a) \<longrightarrow>
        (\<exists>b kw ws1 name ext ws2 rest a.
           chosenDirective c b kw ws1 name ext ws2 rest a \<and> js_replace dockerRegex c t = b @ t @ a)) \<and>
     (\<forall>b kw ws1 name ext ws2 rest a.
        chosenDirective c b kw ws1 name ext ws2 rest a \<longrightarrow> js_replace dockerRegex c t = b @ t @ a)"
proof (cases "rx_search dockerRegex [] c")
  case None
  then have n: "\<not> copyDirective b m a" if "c = b @ m @ a" for b m a
    using rx_search_None [of dockerRegex "[]" c b m a] that
    by (simp add: docker_lang_iff del: rx_lang.simps)
  have r: "js_replace dockerRegex c t = c"
    using None by (simp add: js_replace_def)
  have "\<not> chosenDirective c b kw ws1 name ext ws2 rest a" for b kw ws1 name ext ws2 rest a
  proof
    assume h: "chosenDirective c b kw ws1 name ext ws2 rest a"
    then have "c = b @ (kw @ ws1 @ name @ js ''.'' @ ext @ ws2 @ rest) @ a"
      unfolding chosenDirective_def by simp
    moreover have "copyDirective b (kw @ ws1 @ name @ js ''.'' @ ext @ ws2 @ rest) a"
      using h unfolding chosenDirective_def by (intro parts_copyDirective) blast+
    ultimately show False using n by blast
  qed
  then show ?thesis using n r by blast
next
  case (Some res)
  then obtain b0 m0 a0 caps where s: "rx_search dockerRegex [] c = Some (b0, m0, a0, caps)"
    by (cases res) auto
  from docker_search_chosen [OF s] obtain kw ws1 name ext ws2 rest where
    ch: "chosenDirective c b0 kw ws1 name ext ws2 rest a0"
    by blast
  have r: "js_replace dockerRegex c t = b0 @ t @ a0"
    using s assms by (simp add: js_replace_def getSubstitution_plain)
  have u: "js_replace dockerRegex c t = b @ t @ a"
    if "chosenDirective c b kw' ws1' name' ext' ws2' rest' a" for b kw' ws1' name' ext' ws2' rest' a
    using chosen_unique [OF that ch] r by simp
  from rx_search_Some [OF s] have "c = b0 @ m0 @ a0" "copyDirective b0 m0 a0"
    by (auto simp: docker_lang_iff simp del: rx_lang.simps)
  then have "\<not> (\<forall>b m a. c = b @ m @ a \<longrightarrow> \<not> copyDirective b m a)"
    by blast
  then show ?thesis using ch r u by blast
qed

lemma docker_replace_determined:
  assumes "0x24 \<notin> set t"
    and "(\<forall>b m a. c = b @ m @ a \<longrightarrow> \<not> copyDirective b m a) \<longrightarrow> x = c"
    and "\<forall>b kw ws1 name ext ws2 rest a.
           chosenDirective c b kw ws1 name ext ws2 rest a \<longrightarrow> x = b @ t @ a"
  shows "x = js_replace dockerRegex c t"
proof (cases "\<forall>b m a. c = b @ m @ a \<longrightarrow> \<not> copyDirective b m a")
  case True
  then show ?thesis
    using assms(2) docker_replace [OF assms(1), of c] by simp
next
  case False
  then have "\<exists>b m a. c = b @ m @ a \<and> copyDirective b m a" by blast
  with docker_replace [OF assms(1), of c] obtain b kw ws1 name ext ws2 rest a where
    "chosenDirective c b kw ws1 name ext ws2 rest a" "js_replace dockerRegex c t = b @ t @ a"
    by blast
  then show ?thesis
    using assms(3) by simp
qed

text \<open>
  The search for \<^verbatim>\<open>/^SERVER_VERSION=.*$/m\<close> goes through the text line by line and stops at
  the first line that sets the version.
\<close>

lemma jsLines_unfold:
  "jsLines r = takeWhile notLineTerminator r #
     (case dropWhile notLineTerminator r of [] \<Rightarrow> [] | t # rest \<Rightarrow> jsLines rest)"
  by (induction r) (auto simp: notLineTerminator_def split: list.splits)

lemma takeWhile_line:
  "list_all P x \<Longrightarrow> y = [] \<or> \<not> P (hd y) \<Longrightarrow> takeWhile P (x @ y) = x \<and> dropWhile P (x @ y) = y"
proof (induction x)
  case Nil
  then show ?case by (cases y) auto
next
  case (Cons c x)
  then show ?case by simp
qed

lemma prefix_takeWhile:
  assumes "list_all P s"
  shows "prefix s (takeWhile P r) \<longleftrightarrow> prefix s r"
proof
  assume "prefix s (takeWhile P r)"
  moreover have "prefix (takeWhile P r) r"
    by (metis prefixI takeWhile_dropWhile_id)
  ultimately show "prefix s r" by (rule prefix_order.trans)
next
  assume "prefix s r"
  then obtain y where "r = s @ y" by (auto simp: prefix_def)
  then show "prefix s (takeWhile P r)"
    using assms by (simp add: list_all_iff)
qed

lemma lit_plain: "list_all notLineTerminator (js ''SERVER_VERSION='')"
  by (simp add: js_def notLineTerminator_def isLineTerminator_def)

lemma firstSome_longest:
  "n \<le> N \<Longrightarrow> f N = Some x \<Longrightarrow> firstSome (map f (rev [n ..< Suc N])) = Some x"
  by simp

lemma launch_match:
  "rx_match launchRegex b r [] =
     (if (b = [] \<or> isLineTerminator (last b)) \<and> prefix (js ''SERVER_VERSION='') r
      then Some (dropWhile notLineTerminator r, [])
      else None)"
proof (cases "(b = [] \<or> isLineTerminator (last b)) \<and> prefix (js ''SERVER_VERSION='') r")
  case False
  then show ?thesis by (auto simp: launchRegex_def)
next
  case True
  then obtain y where y: "r = js ''SERVER_VERSION='' @ y" by (auto simp: prefix_def)
  let ?N = "length (takeWhile notLineTerminator y)"
  have d: "drop ?N y = dropWhile notLineTerminator y"
    by (simp add: dropWhile_eq_drop)
  have e: "dropWhile notLineTerminator y = [] \<or> isLineTerminator (hd (dropWhile notLineTerminator y))"
    using hd_dropWhile [of notLineTerminator y] by (auto simp: notLineTerminator_def)
  have "rx_match [Eol] (b @ js ''SERVER_VERSION='' @ take ?N y) (drop ?N y) []
          = Some (dropWhile notLineTerminator y, [])"
    using e by (auto simp: d)
  then have "firstSome (map (\<lambda>k. rx_match [Eol] (b @ js ''SERVER_VERSION='' @ take k y) (drop k y) [])
               (rev [0 ..< Suc ?N])) = Some (dropWhile notLineTerminator y, [])"
    by (intro firstSome_longest) simp_all
  moreover have "dropWhile notLineTerminator r = dropWhile notLineTerminator y"
    using lit_plain y by (simp add: dropWhile_append3 list_all_iff dropWhile_append)
  ultimately show ?thesis
    using True y by (simp add: launchRegex_def del: upt_Suc rx_match.simps(3))
qed

lemma launch_skip:
  "\<not> (b = [] \<or> isLineTerminator (last b)) \<Longrightarrow>
   rx_search launchRegex b r =
     (case dropWhile notLineTerminator r of
        [] \<Rightarrow> None
      | t # rest \<Rightarrow> rx_search launchRegex (b @ takeWhile notLineTerminator r @ [t]) rest)"
proof (induction r arbitrary: b)
  case Nil
  then show ?case by (simp add: launch_match)
next
  case (Cons c cs)
  show ?case
  proof (cases "isLineTerminator c")
    case True
    then have "\<not> notLineTerminator c" by (simp add: notLineTerminator_def)
    then show ?thesis
      using Cons.prems by (simp add: launch_match)
  next
    case False
    then have nc: "notLineTerminator c" by (simp add: notLineTerminator_def)
    from False have "\<not> (b @ [c] = [] \<or> isLineTerminator (last (b @ [c])))" by simp
    note ih = Cons.IH [OF this]
    have "rx_search launchRegex b (c # cs) = rx_search launchRegex (b @ [c]) cs"
      using Cons.prems by (simp add: launch_match)
    also note ih
    also have "(case dropWhile notLineTerminator cs of
        [] \<Rightarrow> None
      | t # rest \<Rightarrow> rx_search launchRegex ((b @ [c]) @ takeWhile notLineTerminator cs @ [t]) rest) =
      (case dropWhile notLineTerminator (c # cs) of
        [] \<Rightarrow> None
      | t # rest \<Rightarrow> rx_search launchRegex (b @ takeWhile notLineTerminator (c # cs) @ [t]) rest)"
      by (simp add: nc cong: list.case_cong)
    finally show ?thesis .
  qed
qed

lemma launch_line:
  assumes "b = [] \<or> isLineTerminator (last b)"
  shows "rx_search launchRegex b r =
     (if versionLine (takeWhile notLineTerminator r)
      then Some (b, takeWhile notLineTerminator r, dropWhile notLineTerminator r, [])
      else (case dropWhile notLineTerminator r of
              [] \<Rightarrow> None
            | t # rest \<Rightarrow> rx_search launchRegex (b @ takeWhile notLineTerminator r @ [t]) rest))"
proof (cases r)
  case Nil
  then show ?thesis
    by (simp add: launch_match versionLine_def js_def)
next
  case (Cons c cs)
  have v: "versionLine (takeWhile notLineTerminator r) \<longleftrightarrow> prefix (js ''SERVER_VERSION='') r"
    unfolding versionLine_def using lit_plain by (rule prefix_takeWhile)
  show ?thesis
  proof (cases "prefix (js ''SERVER_VERSION='') r")
    case True
    have "length r - length (dropWhile notLineTerminator r) = length (takeWhile notLineTerminator r)"
      by (metis add_diff_cancel_right' length_append takeWhile_dropWhile_id)
    then have "take (length r - length (dropWhile notLineTerminator r)) r = takeWhile notLineTerminator r"
      by (metis append_eq_conv_conj takeWhile_dropWhile_id)
    then show ?thesis
      using True assms v Cons by (simp add: launch_match)
  next
    case False
    show ?thesis
    proof (cases "isLineTerminator c")
      case True
      then have "\<not> notLineTerminator c" by (simp add: notLineTerminator_def)
      then show ?thesis
        using False v Cons by (simp add: launch_match)
    next
      case nt: False
      then have nc: "notLineTerminator c" by (simp add: notLineTerminator_def)
      from nt have "\<not> (b @ [c] = [] \<or> isLineTerminator (last (b @ [c])))" by simp
      note sk = launch_skip [OF this, of cs]
      have "rx_search launchRegex b (c # cs) = rx_search launchRegex (b @ [c]) cs"
        using False Cons by (simp add: launch_match)
      also note sk
      also have "(case dropWhile notLineTerminator cs of
          [] \<Rightarrow> None
        | t # rest \<Rightarrow> rx_search launchRegex ((b @ [c]) @ takeWhile notLineTerminator cs @ [t]) rest) =
        (case dropWhile notLineTerminator (c # cs) of
          [] \<Rightarrow> None
        | t # rest \<Rightarrow> rx_search launchRegex (b @ takeWhile notLineTerminator (c # cs) @ [t]) rest)"
        by (simp add: nc cong: list.case_cong)
      finally have k: "rx_search launchRegex b (c # cs) =
        (case dropWhile notLineTerminator (c # cs) of
          [] \<Rightarrow> None
        | t # rest \<Rightarrow> rx_search launchRegex (b @ takeWhile notLineTerminator (c # cs) @ [t]) rest)" .
      have "\<not> versionLine (takeWhile notLineTerminator r)"
        using False v by simp
      then show ?thesis
        by (simp only: if_False) (simp only: Cons k)
    qed
  qed
qed

lemma launch_found:
  "b = [] \<or> isLineTerminator (last b) \<Longrightarrow> i < length (jsLines r) \<Longrightarrow>
   versionLine (jsLines r ! i) \<Longrightarrow> (\<forall>j<i. \<not> versionLine (jsLines r ! j)) \<Longrightarrow>
   \<exists>pre old post. rx_search launchRegex b r = Some (b @ pre, old, post, []) \<and>
      r = pre @ old @ post \<and>
      (\<forall>new. list_all notLineTerminator new \<longrightarrow>
         jsLines (pre @ new @ post) = (jsLines r)[i := new] \<and>
         filter isLineTerminator (pre @ new @ post) = filter isLineTerminator r)"
proof (induction i arbitrary: b r)
  case 0
  let ?l = "takeWhile notLineTerminator r" and ?p = "dropWhile notLineTerminator r"
  have v: "versionLine ?l"
    using "0.prems"(3) by (subst (asm) jsLines_unfold) simp
  have p: "?p = [] \<or> \<not> notLineTerminator (hd ?p)"
    using hd_dropWhile [of notLineTerminator r] by auto
  have "jsLines (new @ ?p) = (jsLines r)[0 := new] \<and>
        filter isLineTerminator (new @ ?p) = filter isLineTerminator r"
    if n: "list_all notLineTerminator new" for new
  proof -
    have "jsLines (new @ ?p) = new # (case ?p of [] \<Rightarrow> [] | t # rest \<Rightarrow> jsLines rest)"
      using takeWhile_line [OF n p] by (subst jsLines_unfold) simp
    moreover have "jsLines r = ?l # (case ?p of [] \<Rightarrow> [] | t # rest \<Rightarrow> jsLines rest)"
      by (rule jsLines_unfold)
    moreover have "filter isLineTerminator new = []"
      using n by (auto simp: list_all_iff notLineTerminator_def filter_empty_conv)
    moreover have "filter isLineTerminator ?l = []"
      by (auto simp: filter_empty_conv notLineTerminator_def dest: set_takeWhileD)
    moreover have "filter isLineTerminator r = filter isLineTerminator ?l @ filter isLineTerminator ?p"
      by (metis filter_append takeWhile_dropWhile_id)
    ultimately show ?thesis by simp
  qed
  then show ?case
    using launch_line [OF "0.prems"(1), of r] v
    by (intro exI [of _ "[]"] exI [of _ ?l] exI [of _ ?p]) simp
next
  case (Suc i)
  let ?l = "takeWhile notLineTerminator r" and ?p = "dropWhile notLineTerminator r"
  have u: "jsLines r = ?l # (case ?p of [] \<Rightarrow> [] | t # rest \<Rightarrow> jsLines rest)"
    by (rule jsLines_unfold)
  have "\<not> versionLine (jsLines r ! 0)"
    using Suc.prems(4) by simp
  then have nv: "\<not> versionLine ?l"
    by (subst (asm) jsLines_unfold) simp
  from Suc.prems(2) u obtain t rest where p: "?p = t # rest"
    by (cases ?p) auto
  have t: "isLineTerminator t"
    using hd_dropWhile [of notLineTerminator r] p by (simp add: notLineTerminator_def)
  have r: "r = ?l @ t # rest"
    using p by (metis takeWhile_dropWhile_id)
  have l: "list_all notLineTerminator ?l"
    by (auto simp: list_all_iff dest: set_takeWhileD)
  have js: "jsLines r = ?l # jsLines rest"
    using u p by simp
  have 1: "(b @ ?l @ [t]) = [] \<or> isLineTerminator (last (b @ ?l @ [t]))"
    using t by simp
  have 2: "i < length (jsLines rest)"
    using Suc.prems(2) js by simp
  have 3: "versionLine (jsLines rest ! i)"
    using Suc.prems(3) js by simp
  have 4: "\<forall>j<i. \<not> versionLine (jsLines rest ! j)"
    using Suc.prems(4) js by auto
  from Suc.IH [OF 1 2 3 4] obtain pre old post where
    s: "rx_search launchRegex (b @ ?l @ [t]) rest = Some ((b @ ?l @ [t]) @ pre, old, post, [])"
       "rest = pre @ old @ post"
       "\<forall>new. list_all notLineTerminator new \<longrightarrow>
         jsLines (pre @ new @ post) = (jsLines rest)[i := new] \<and>
         filter isLineTerminator (pre @ new @ post) = filter isLineTerminator rest"
    by blast
  have "rx_search launchRegex b r = Some (b @ (?l @ [t] @ pre), old, post, [])"
    using launch_line [OF Suc.prems(1), of r] nv p s(1) by simp
  moreover have "r = (?l @ [t] @ pre) @ old @ post"
    using r s(2) by simp
  moreover have "jsLines ((?l @ [t] @ pre) @ new @ post) = (jsLines r)[Suc i := new] \<and>
        filter isLineTerminator ((?l @ [t] @ pre) @ new @ post) = filter isLineTerminator r"
    if n: "list_all notLineTerminator new" for new
  proof -
    have tp: "t # pre @ new @ post = [] \<or> \<not> notLineTerminator (hd (t # pre @ new @ post))"
      using t by (simp add: notLineTerminator_def)
    have "jsLines (?l @ t # pre @ new @ post) = ?l # jsLines (pre @ new @ post)"
      using takeWhile_line [OF l tp] by (subst jsLines_unfold) simp
    moreover have "filter isLineTerminator r =
        filter isLineTerminator (?l @ [t]) @ filter isLineTerminator rest"
      by (subst r) simp
    ultimately show ?thesis
      using s(3) n js by simp
  qed
  ultimately show ?case by blast
qed

lemma launch_absent:
  "b = [] \<or> isLineTerminator (last b) \<Longrightarrow> \<forall>l\<in>set (jsLines r). \<not> versionLine l \<Longrightarrow>
   rx_search launchRegex b r = None"
proof (induction r arbitrary: b rule: length_induct)
  case (1 r)
  let ?l = "takeWhile notLineTerminator r" and ?p = "dropWhile notLineTerminator r"
  have u: "jsLines r = ?l # (case ?p of [] \<Rightarrow> [] | t # rest \<Rightarrow> jsLines rest)"
    by (rule jsLines_unfold)
  have nv: "\<not> versionLine ?l"
    using "1.prems"(2) by (subst (asm) u) simp
  have e: "rx_search launchRegex b r =
     (case ?p of [] \<Rightarrow> None | t # rest \<Rightarrow> rx_search launchRegex (b @ ?l @ [t]) rest)"
    using launch_line [OF "1.prems"(1), of r] nv by (simp only: if_False)
  show ?case
  proof (cases ?p)
    case Nil
    show ?thesis
      by (simp only: e Nil list.case)
  next
    case (Cons t rest)
    have t: "isLineTerminator t"
      using hd_dropWhile [of notLineTerminator r] Cons by (simp add: notLineTerminator_def)
    have "length rest < length r"
      using Cons length_dropWhile_le [of notLineTerminator r] by simp
    moreover have "(b @ ?l @ [t]) = [] \<or> isLineTerminator (last (b @ ?l @ [t]))"
      using t by simp
    moreover have "\<forall>l\<in>set (jsLines rest). \<not> versionLine l"
      using "1.prems"(2) Cons by (subst (asm) u) simp
    ultimately have "rx_search launchRegex (b @ ?l @ [t]) rest = None"
      using "1.IH" by blast
    then show ?thesis
      by (simp only: e Cons list.case)
  qed
qed

lemma count_list_update:
  assumes "i < length xs" and "\<forall>j<length xs. j \<noteq> i \<longrightarrow> xs ! j \<noteq> x"
  shows "count_list (xs[i := x]) x = 1"
proof -
  have a: "x \<notin> set (take i xs)"
    using assms by (auto simp: in_set_conv_nth)
  have b: "x \<notin> set (drop (Suc i) xs)"
    using assms by (auto simp: in_set_conv_nth)
  have "xs[i := x] = take i xs @ x # drop (Suc i) xs"
    using assms(1) by (rule upd_conv_take_nth_drop)
  then show ?thesis
    using a b by (simp add: count_list_0_iff)
qed

lemma launch_replace_found:
  assumes "i < length (jsLines c)" and "versionLine (jsLines c ! i)"
    and "\<forall>j<i. \<not> versionLine (jsLines c ! j)"
    and "0x24 \<notin> set t" and "list_all notLineTerminator t"
  shows "jsLines (js_replace launchRegex c t) = (jsLines c)[i := t] \<and>
         filter isLineTerminator (js_replace launchRegex c t) = filter isLineTerminator c"
proof -
  from launch_found [of "[]" i c, OF _ assms(1-3)] obtain pre old post where
    s: "rx_search launchRegex [] c = Some (pre, old, post, [])"
       "\<forall>new. list_all notLineTerminator new \<longrightarrow>
         jsLines (pre @ new @ post) = (jsLines c)[i := new] \<and>
         filter isLineTerminator (pre @ new @ post) = filter isLineTerminator c"
    by auto
  have "js_replace launchRegex c t = pre @ t @ post"
    using s(1) assms(4) by (simp add: js_replace_def getSubstitution_plain)
  then show ?thesis
    using s(2) assms(5) by simp
qed

lemma launch_replace_absent:
  "\<forall>l\<in>set (jsLines c). \<not> versionLine l \<Longrightarrow> js_replace launchRegex c t = c"
  using launch_absent [of "[]" c] by (simp add: js_replace_def)

section \<open>Properties of the file system\<close>

lemma resolve_TEMP_DIR: "resolve TEMP_DIR = [js ''temp_server_files'']"
  by (simp add: resolve_def TEMP_DIR_def js_def)

lemma resolve_LAUNCH_SH_PATH: "resolve LAUNCH_SH_PATH = [js ''launch.sh'']"
  by (simp add: resolve_def LAUNCH_SH_PATH_def js_def)

lemma resolve_DOCKERFILE_PATH: "resolve DOCKERFILE_PATH = [js ''Dockerfile'']"
  by (simp add: resolve_def DOCKERFILE_PATH_def js_def)

lemma launch_neq_dockerfile: "js ''launch.sh'' \<noteq> js ''Dockerfile''"
  by (simp add: js_def)

lemma lookup_put_same: "put d p n = Some d' \<Longrightarrow> lookup d' p = Some n"
  by (induction d p n arbitrary: d' rule: put.induct)
     (auto simp: update_conv' split: option.splits)

lemma lookup_put_other: "put d [x] n = Some d' \<Longrightarrow> x \<noteq> y \<Longrightarrow> lookup d' (y # q) = lookup d (y # q)"
  by (cases d) (auto simp: update_conv')

lemma put_file_exists: "lookup d p = Some (File c) \<Longrightarrow> \<exists>d'. put d p n = Some d'"
proof (induction d p arbitrary: c rule: lookup.induct)
  case (1 n)
  then show ?case by simp
next
  case (2 c x p)
  then show ?case by simp
next
  case (3 es x p)
  from "3.prems" obtain sub where sub: "map_of es x = Some sub" "lookup sub p = Some (File c)"
    by (auto split: option.splits)
  show ?case
  proof (cases p)
    case Nil
    then show ?thesis by simp
  next
    case (Cons y q)
    from "3.IH" [OF sub] obtain sub' where "put sub p n = Some sub'"
      by blast
    then show ?thesis
      using sub(1) Cons by simp
  qed
qed

lemma writeFile_over_file:
  assumes "readFile d p = Inr c"
  shows "\<exists>d'. writeFile d p c' = Inr d' \<and> lookup d' (resolve p) = Some (File c')"
proof -
  from assms obtain c0 where l: "lookup d (resolve p) = Some (File c0)"
    by (auto simp: readFile_def split: option.splits node.splits)
  from put_file_exists [OF l] obtain d' where p: "put d (resolve p) (File c') = Some d'"
    by blast
  then show ?thesis
    using l lookup_put_same [OF p] by (simp add: writeFile_def)
qed

lemma resolve_zip: "resolve (path_join TEMP_DIR SERVER_FILE_NAME) = [js ''temp_server_files'', js ''server-files.zip'']"
  by (simp add: resolve_def path_join_def TEMP_DIR_def SERVER_FILE_NAME_def js_def)

lemma mkdirp_lookup: "mkdirp d p = Some d' \<Longrightarrow> \<exists>es. lookup d' p = Some (Dir es)"
  by (induction d p arbitrary: d' rule: mkdirp.induct)
     (auto simp: update_conv' split: option.splits)

lemma lookup_remove: "lookup (remove d [x]) [x] = None"
  by (cases d) (simp_all add: delete_conv')

lemma mkdir_exists: "mkdir d p = Inr d' \<Longrightarrow> existsSync d' p"
  using mkdirp_lookup [of d "resolve p" d']
  by (auto simp: mkdir_def existsSync_def split: option.splits)

lemma writeFile_launch_keeps_dockerfile:
  assumes "writeFile d LAUNCH_SH_PATH c = Inr d'"
  shows "lookup d' (resolve DOCKERFILE_PATH) = lookup d (resolve DOCKERFILE_PATH)"
proof -
  from assms have "put d [js ''launch.sh''] (File c) = Some d'"
    by (auto simp: writeFile_def resolve_LAUNCH_SH_PATH split: option.splits node.splits)
  then show ?thesis
    using lookup_put_other [OF _ launch_neq_dockerfile] by (simp only: resolve_DOCKERFILE_PATH)
qed

section \<open>Properties of downloadFile\<close>

text \<open>
  C7. When the status of the response is outside 200 to 299, \<open>downloadFile\<close> fails with
  \<open>DownloadError\<close> and the state is the one before the call: nothing was created or
  written at the destination.
\<close>

theorem download_not_ok:
  assumes "fetchFn url = Inr r" and "status r < 200 \<or> 300 \<le> status r"
  shows "downloadFile fetchFn url dest w = (Inl (DownloadError (statusText r)), w)"
  using assms by (auto simp: downloadFile_def ok_def)

theorem download_not_ok_witness:
  "(\<lambda>u. Inr notFound) (js ''https://cdn/x.zip'') = (Inr notFound :: error + response) \<and>
   (status notFound < 200 \<or> 300 \<le> status notFound) \<and>
   downloadFile (\<lambda>u. Inr notFound) (js ''https://cdn/x.zip'') (path_join TEMP_DIR SERVER_FILE_NAME) emptyWorld
     = (Inl (DownloadError (js ''Not Found'')), emptyWorld) \<and>
   lookup (disk emptyWorld) (resolve (path_join TEMP_DIR SERVER_FILE_NAME)) = None"
proof -
  have a: "(\<lambda>u. Inr notFound) (js ''https://cdn/x.zip'') = (Inr notFound :: error + response)" by simp
  have b: "status notFound < 200 \<or> 300 \<le> status notFound" by (simp add: notFound_def)
  have c: "resolve (path_join TEMP_DIR SERVER_FILE_NAME) = [js ''temp_server_files'', js ''server-files.zip'']"
    by (simp add: resolve_def path_join_def TEMP_DIR_def SERVER_FILE_NAME_def js_def)
  have d: "lookup (disk emptyWorld) [js ''temp_server_files'', js ''server-files.zip''] = None"
    by (simp add: emptyWorld_def js_def)
  show ?thesis
    using download_not_ok [OF a b, where dest = "path_join TEMP_DIR SERVER_FILE_NAME" and w = emptyWorld] b c d
    by (simp add: notFound_def)
qed

lemma writeChunk_openStreams: "openStreams (writeChunk p w c) = openStreams w"
  by (simp add: writeChunk_def split: sum.splits)

lemma foldl_writeChunk_openStreams: "openStreams (foldl (writeChunk p) w cs) = openStreams w"
  by (induction cs arbitrary: w) (simp_all add: writeChunk_openStreams)

lemma writeChunk_content:
  assumes "readFile (disk w) p = Inr c"
  shows "readFile (disk (writeChunk p w chunk)) p = Inr (c @ chunk)"
proof -
  from writeFile_over_file [OF assms] obtain d' where
    "writeFile (disk w) p (c @ chunk) = Inr d'" "lookup d' (resolve p) = Some (File (c @ chunk))"
    by blast
  then show ?thesis
    using assms by (simp add: writeChunk_def readFile_def)
qed

lemma foldl_writeChunk_content:
  "readFile (disk w) p = Inr c \<Longrightarrow> readFile (disk (foldl (writeChunk p) w cs)) p = Inr (c @ concat cs)"
  by (induction cs arbitrary: w c) (simp_all add: writeChunk_content)

lemma createWriteStream_result:
  assumes "createWriteStream w p = Inr w1"
  shows "openStreams w1 = p # openStreams w \<and> readFile (disk w1) p = Inr []"
proof -
  from assms obtain d' where d: "writeFile (disk w) p [] = Inr d'" "w1 = w\<lparr>disk := d', openStreams := p # openStreams w\<rparr>"
    by (auto simp: createWriteStream_def split: sum.splits)
  from d(1) have "put (disk w) (resolve p) (File []) = Some d'"
    by (auto simp: writeFile_def split: option.splits node.splits)
  then have "lookup d' (resolve p) = Some (File [])"
    by (rule lookup_put_same)
  then show ?thesis
    using d(2) by (simp add: readFile_def)
qed

text \<open>
  C8, as the code has it. When the response is successful and the output file could be
  opened: if the body ends, \<open>downloadFile\<close> returns with all chunks in the file and the
  write stream ended; if the body emits an error, \<open>downloadFile\<close> fails with
  \<open>DownloadError\<close> and the write stream is still open.
\<close>

theorem download_stream_paths:
  assumes "fetchFn url = Inr r" and "ok r" and "createWriteStream w dest = Inr w1"
  shows "(bodyEnd r = BodyEnd \<longrightarrow>
            fst (downloadFile fetchFn url dest w) = Inr () \<and>
            readFile (disk (snd (downloadFile fetchFn url dest w))) dest = Inr (concat (bodyChunks r)) \<and>
            dest \<notin> set (openStreams (snd (downloadFile fetchFn url dest w)))) \<and>
         (bodyEnd r = BodyError \<longrightarrow>
            fst (downloadFile fetchFn url dest w) = Inl (DownloadError []) \<and>
            dest \<in> set (openStreams (snd (downloadFile fetchFn url dest w))))"
proof -
  note c = createWriteStream_result [OF assms(3)]
  have content: "readFile (disk (foldl (writeChunk dest) w1 (bodyChunks r))) dest = Inr (concat (bodyChunks r))"
    using foldl_writeChunk_content [of w1 dest "[]" "bodyChunks r"] c by simp
  have streams: "openStreams (foldl (writeChunk dest) w1 (bodyChunks r)) = dest # openStreams w"
    using c by (simp add: foldl_writeChunk_openStreams)
  show ?thesis
    using assms content streams
    by (cases "bodyEnd r") (simp_all add: downloadFile_def endStream_def)
qed

lemma emptyWorld_stream:
  "createWriteStream emptyWorld (path_join TEMP_DIR SERVER_FILE_NAME) =
     Inr \<lparr> disk = Dir [(js ''temp_server_files'', Dir [(js ''server-files.zip'', File [])])],
           openStreams = [path_join TEMP_DIR SERVER_FILE_NAME] \<rparr>"
  by (simp add: createWriteStream_def writeFile_def resolve_zip emptyWorld_def)

theorem download_stream_paths_witness:
  "ok zipResponse \<and> ok resetResponse \<and>
   fst (downloadFile (\<lambda>u. Inr zipResponse) (js ''https://cdn/x.zip'') (path_join TEMP_DIR SERVER_FILE_NAME) emptyWorld) = Inr () \<and>
   readFile (disk (snd (downloadFile (\<lambda>u. Inr zipResponse) (js ''https://cdn/x.zip'') (path_join TEMP_DIR SERVER_FILE_NAME) emptyWorld)))
     (path_join TEMP_DIR SERVER_FILE_NAME) = Inr (js ''PKab'') \<and>
   path_join TEMP_DIR SERVER_FILE_NAME \<notin> set (openStreams (snd (downloadFile (\<lambda>u. Inr zipResponse) (js ''https://cdn/x.zip'') (path_join TEMP_DIR SERVER_FILE_NAME) emptyWorld))) \<and>
   fst (downloadFile (\<lambda>u. Inr resetResponse) (js ''https://cdn/x.zip'') (path_join TEMP_DIR SERVER_FILE_NAME) emptyWorld) = Inl (DownloadError [])"
proof -
  have a: "ok zipResponse" "ok resetResponse"
    by (simp_all add: ok_def zipResponse_def resetResponse_def)
  have b: "bodyEnd zipResponse = BodyEnd" "bodyEnd resetResponse = BodyError"
    "concat (bodyChunks zipResponse) = js ''PKab''"
    by (simp_all add: zipResponse_def resetResponse_def js_def)
  show ?thesis
    using download_stream_paths [where fetchFn = "\<lambda>u. Inr zipResponse" and url = "js ''https://cdn/x.zip''",
        OF _ a(1) emptyWorld_stream]
      download_stream_paths [where fetchFn = "\<lambda>u. Inr resetResponse" and url = "js ''https://cdn/x.zip''",
        OF _ a(2) emptyWorld_stream]
      a b
    by simp
qed

text \<open>
  C8 as stated fails: after a body that emits an error, the function has failed and the
  write stream of the destination is among the open streams.
\<close>

theorem stream_error_leaves_handle_open:
  "fst (downloadFile resetFetch (js ''https://cdn/x.zip'') (path_join TEMP_DIR SERVER_FILE_NAME) emptyWorld)
     = Inl (DownloadError []) \<and>
   openStreams (snd (downloadFile resetFetch (js ''https://cdn/x.zip'') (path_join TEMP_DIR SERVER_FILE_NAME) emptyWorld))
     = [path_join TEMP_DIR SERVER_FILE_NAME]"
  by (simp add: downloadFile_def resetFetch_def ok_def resetResponse_def emptyWorld_stream
      writeChunk_openStreams)

section \<open>Properties of findServerJarInTempDir\<close>

lemma str_includes_sublist: "str_includes s sub \<longleftrightarrow> sublist sub s"
  by (induction s) (auto simp: sublist_Cons_right)

lemma isServerJar_qualifies: "isServerJar = qualifies"
  by (rule ext) (simp add: isServerJar_def qualifies_def str_includes_sublist)

lemma qualifies_nonempty: "qualifies n \<Longrightarrow> n \<noteq> []"
  by (auto simp: qualifies_def js_def)

lemma find_first: "\<forall>m\<in>set pre. \<not> P m \<Longrightarrow> P n \<Longrightarrow> List.find P (pre @ n # post) = Some n"
  by (induction pre) auto

lemma unpacked_readdir:
  "readdir unpacked TEMP_DIR =
     Inr ([js ''server-files.zip'', js ''forge-1.21-installer.jar'', js ''mods'', js ''client-extras.jar'']
          @ js ''server.jar'' # [js ''other.jar''])"
  by (simp add: readdir_def resolve_TEMP_DIR unpacked_def) (simp add: js_def)

text \<open>
  C9. \<open>findServerJarInTempDir\<close> never throws. It returns \<^verbatim>\<open>null\<close> when the directory
  cannot be read and when no name of the listing qualifies, and otherwise the first name
  of the listing that qualifies.
\<close>

theorem findServerJar_total:
  "(\<exists>r. findServerJarInTempDir d = Inr r) \<and>
   (\<forall>e. readdir d TEMP_DIR = Inl e \<longrightarrow> findServerJarInTempDir d = Inr None) \<and>
   (\<forall>names. readdir d TEMP_DIR = Inr names \<and> (\<forall>n\<in>set names. \<not> qualifies n) \<longrightarrow>
      findServerJarInTempDir d = Inr None) \<and>
   (\<forall>pre n post. readdir d TEMP_DIR = Inr (pre @ n # post) \<and> qualifies n \<and>
      (\<forall>m\<in>set pre. \<not> qualifies m) \<longrightarrow> findServerJarInTempDir d = Inr (Some n))"
proof (intro conjI allI impI)
  show "\<exists>r. findServerJarInTempDir d = Inr r"
    by (simp add: findServerJarInTempDir_def split: sum.split option.split)
next
  fix e assume "readdir d TEMP_DIR = Inl e"
  then show "findServerJarInTempDir d = Inr None"
    by (simp add: findServerJarInTempDir_def)
next
  fix names assume "readdir d TEMP_DIR = Inr names \<and> (\<forall>n\<in>set names. \<not> qualifies n)"
  then have "readdir d TEMP_DIR = Inr names" "List.find qualifies names = None"
    by (auto simp: find_None_iff)
  then show "findServerJarInTempDir d = Inr None"
    by (simp add: findServerJarInTempDir_def isServerJar_qualifies)
next
  fix pre n post
  assume a: "readdir d TEMP_DIR = Inr (pre @ n # post) \<and> qualifies n \<and> (\<forall>m\<in>set pre. \<not> qualifies m)"
  then have "List.find qualifies (pre @ n # post) = Some n"
    by (simp add: find_first)
  moreover have "n \<noteq> []"
    using a by (simp add: qualifies_nonempty)
  ultimately show "findServerJarInTempDir d = Inr (Some n)"
    using a by (simp add: findServerJarInTempDir_def isServerJar_qualifies)
qed

theorem findServerJar_total_witness:
  "findServerJarInTempDir unpacked = Inr (Some (js ''server.jar'')) \<and>
   readdir (Dir []) TEMP_DIR = Inl IOError \<and>
   findServerJarInTempDir (Dir []) = Inr None \<and>
   readdir (Dir [(js ''temp_server_files'', Dir [(js ''client.jar'', File [])])]) TEMP_DIR = Inr [js ''client.jar''] \<and>
   findServerJarInTempDir (Dir [(js ''temp_server_files'', Dir [(js ''client.jar'', File [])])]) = Inr None"
proof -
  have q: "qualifies (js ''server.jar'')"
    by (simp add: qualifies_def js_def suffix_to_prefix sublist_code(3))
  have nq: "\<forall>m\<in>set [js ''server-files.zip'', js ''forge-1.21-installer.jar'', js ''mods'', js ''client-extras.jar'']. \<not> qualifies m"
    by (simp add: qualifies_def js_def suffix_to_prefix sublist_code(3))
  have e: "readdir (Dir []) TEMP_DIR = Inl IOError"
    by (simp add: readdir_def resolve_TEMP_DIR)
  have c: "readdir (Dir [(js ''temp_server_files'', Dir [(js ''client.jar'', File [])])]) TEMP_DIR = Inr [js ''client.jar'']"
    by (simp add: readdir_def resolve_TEMP_DIR)
  have cq: "\<forall>n\<in>set [js ''client.jar'']. \<not> qualifies n"
    by (simp add: qualifies_def js_def suffix_to_prefix sublist_code(3))
  show ?thesis
    using findServerJar_total [of unpacked] findServerJar_total [of "Dir []"]
      findServerJar_total [of "Dir [(js ''temp_server_files'', Dir [(js ''client.jar'', File [])])]"]
      unpacked_readdir q nq e c cq
    by blast
qed


section \<open>Properties of updateRepoFiles\<close>

lemma unpacked_program: "findServerJarInTempDir unpacked = Inr (Some (js ''server.jar''))"
  by code_simp

lemma noProgram_none: "findServerJarInTempDir noProgram = Inr None"
  by code_simp

text \<open>
  C5. When no server program was found, and likewise when nothing exists at the path of
  the Dockerfile, what is at that path is the same after \<open>updateRepoFiles\<close> as before,
  and the function returns normally whenever \<^verbatim>\<open>launch.sh\<close> can be read.
\<close>

theorem dockerfile_skipped:
  assumes "findServerJarInTempDir d = Inr None \<or> \<not> existsSync d DOCKERFILE_PATH"
  shows "lookup (snd (updateRepoFiles v d)) (resolve DOCKERFILE_PATH) = lookup d (resolve DOCKERFILE_PATH) \<and>
         (\<forall>c. readFile d LAUNCH_SH_PATH = Inr c \<longrightarrow> fst (updateRepoFiles v d) = Inr ())"
proof -
  obtain j where j: "findServerJarInTempDir d = Inr j"
    by (cases "findServerJarInTempDir d")
       (auto simp: findServerJarInTempDir_def split: sum.splits option.splits)
  show ?thesis
  proof (cases "readFile d LAUNCH_SH_PATH")
    case (Inl e)
    then show ?thesis by (simp add: updateRepoFiles_def j)
  next
    case (Inr c)
    from writeFile_over_file [OF Inr] obtain d1 where
      w: "writeFile d LAUNCH_SH_PATH (js_replace launchRegex c (js ''SERVER_VERSION='' @ v)) = Inr d1"
      by blast
    have k: "lookup d1 (resolve DOCKERFILE_PATH) = lookup d (resolve DOCKERFILE_PATH)"
      using w by (rule writeFile_launch_keeps_dockerfile)
    then have e: "existsSync d1 DOCKERFILE_PATH = existsSync d DOCKERFILE_PATH"
      by (simp add: existsSync_def)
    have "updateRepoFiles v d = (Inr (), d1)"
      using assms by (auto simp: updateRepoFiles_def j Inr w e split: option.splits)
    then show ?thesis
      using k Inr by simp
  qed
qed


theorem dockerfile_skipped_witness:
  "findServerJarInTempDir noProgram = Inr None \<and>
   existsSync noProgram DOCKERFILE_PATH \<and>
   readFile (snd (updateRepoFiles (js ''2.0'') noProgram)) DOCKERFILE_PATH =
     Inr (js ''COPY old.jar /server/minecraft_server.jar'') \<and>
   fst (updateRepoFiles (js ''2.0'') noProgram) = Inr () \<and>
   findServerJarInTempDir unpacked = Inr (Some (js ''server.jar'')) \<and>
   \<not> existsSync unpacked DOCKERFILE_PATH \<and>
   \<not> existsSync (snd (updateRepoFiles (js ''2.0'') unpacked)) DOCKERFILE_PATH \<and>
   fst (updateRepoFiles (js ''2.0'') unpacked) = Inr ()"
proof -
  have b: "lookup noProgram (resolve DOCKERFILE_PATH) = Some (File (js ''COPY old.jar /server/minecraft_server.jar''))"
    by (simp add: resolve_DOCKERFILE_PATH noProgram_def) (simp add: js_def)
  have c: "readFile noProgram LAUNCH_SH_PATH = Inr (js ''SERVER_VERSION=1.0'')"
    by (simp add: readFile_def resolve_LAUNCH_SH_PATH noProgram_def)
  have e: "lookup unpacked (resolve DOCKERFILE_PATH) = None"
    by (simp add: resolve_DOCKERFILE_PATH unpacked_def) (simp add: js_def)
  have f: "readFile unpacked LAUNCH_SH_PATH = Inr (js ''SERVER_VERSION=1.0'')"
    by (simp add: readFile_def resolve_LAUNCH_SH_PATH unpacked_def)
  have g: "\<not> existsSync unpacked DOCKERFILE_PATH"
    using e by (simp add: existsSync_def)
  show ?thesis
    using dockerfile_skipped [of noProgram "js ''2.0''", OF disjI1 [OF noProgram_none]]
      dockerfile_skipped [of unpacked "js ''2.0''", OF disjI2 [OF g]]
      noProgram_none unpacked_program b c e f g
    by (simp add: existsSync_def readFile_def)
qed

lemma launch_neq_dockerfile': "js ''Dockerfile'' \<noteq> js ''launch.sh''"
  by (simp add: js_def)

lemma writeFile_dockerfile_keeps_launch:
  assumes "writeFile d DOCKERFILE_PATH c = Inr d'"
  shows "lookup d' (resolve LAUNCH_SH_PATH) = lookup d (resolve LAUNCH_SH_PATH)"
proof -
  from assms have "put d [js ''Dockerfile''] (File c) = Some d'"
    by (auto simp: writeFile_def resolve_DOCKERFILE_PATH split: option.splits node.splits)
  then show ?thesis
    using lookup_put_other [OF _ launch_neq_dockerfile'] by (simp only: resolve_LAUNCH_SH_PATH)
qed



lemma updateRepoFiles_launch:
  assumes "readFile d LAUNCH_SH_PATH = Inr l"
  shows "readFile (snd (updateRepoFiles v d)) LAUNCH_SH_PATH =
           Inr (js_replace launchRegex l (js ''SERVER_VERSION='' @ v))"
proof -
  obtain j where j: "findServerJarInTempDir d = Inr j"
    by (cases "findServerJarInTempDir d")
       (auto simp: findServerJarInTempDir_def split: sum.splits option.splits)
  from writeFile_over_file [OF assms] obtain d1 where
    w: "writeFile d LAUNCH_SH_PATH (js_replace launchRegex l (js ''SERVER_VERSION='' @ v)) = Inr d1"
       "lookup d1 (resolve LAUNCH_SH_PATH) = Some (File (js_replace launchRegex l (js ''SERVER_VERSION='' @ v)))"
    by blast
  have "snd (updateRepoFiles v d) = d1 \<or>
        (\<exists>x d2. writeFile d1 DOCKERFILE_PATH x = Inr d2 \<and> snd (updateRepoFiles v d) = d2)"
    using assms j w(1) by (auto simp: updateRepoFiles_def split: option.splits sum.splits)
  then show ?thesis
    using w(2) writeFile_dockerfile_keeps_launch by (auto simp: readFile_def)
qed

text \<open>
  C4, as the code has it. For a version label without \<^verbatim>\<open>$\<close> and without line terminator:
  a launch script without a line that sets the version is written back as it is; in a
  launch script with such lines the first of them becomes \<^verbatim>\<open>SERVER_VERSION=\<close> followed by
  the label, every other line and every line terminator stay as they are, and that line
  is the only one with this text when no other line had it before.
\<close>

theorem launch_patch:
  assumes "readFile d LAUNCH_SH_PATH = Inr c"
    and "0x24 \<notin> set v" and "list_all notLineTerminator v"
  shows "\<exists>c'. readFile (snd (updateRepoFiles v d)) LAUNCH_SH_PATH = Inr c' \<and>
     ((\<forall>l\<in>set (jsLines c). \<not> versionLine l) \<longrightarrow> c' = c) \<and>
     (\<forall>i<length (jsLines c).
        versionLine (jsLines c ! i) \<and> (\<forall>j<i. \<not> versionLine (jsLines c ! j)) \<longrightarrow>
          jsLines c' = (jsLines c)[i := js ''SERVER_VERSION='' @ v] \<and>
          filter isLineTerminator c' = filter isLineTerminator c \<and>
          ((\<forall>j<length (jsLines c). j \<noteq> i \<longrightarrow> jsLines c ! j \<noteq> js ''SERVER_VERSION='' @ v) \<longrightarrow>
             count_list (jsLines c') (js ''SERVER_VERSION='' @ v) = 1))"
proof -
  let ?t = "js ''SERVER_VERSION='' @ v"
  let ?c' = "js_replace launchRegex c ?t"
  have t: "0x24 \<notin> set ?t" "list_all notLineTerminator ?t"
    using assms(2,3) lit_plain by (simp_all add: js_def)
  have r: "readFile (snd (updateRepoFiles v d)) LAUNCH_SH_PATH = Inr ?c'"
    using assms(1) by (rule updateRepoFiles_launch)
  have a: "(\<forall>l\<in>set (jsLines c). \<not> versionLine l) \<longrightarrow> ?c' = c"
    using launch_replace_absent by blast
  have b: "jsLines ?c' = (jsLines c)[i := ?t] \<and>
          filter isLineTerminator ?c' = filter isLineTerminator c \<and>
          ((\<forall>j<length (jsLines c). j \<noteq> i \<longrightarrow> jsLines c ! j \<noteq> ?t) \<longrightarrow>
             count_list (jsLines ?c') ?t = 1)"
    if "i < length (jsLines c)" "versionLine (jsLines c ! i) \<and> (\<forall>j<i. \<not> versionLine (jsLines c ! j))" for i
    using launch_replace_found [of i c ?t] that t count_list_update [of i "jsLines c" ?t]
    by simp
  show ?thesis
    using r a b by blast
qed

lemma built_launch: "readFile built LAUNCH_SH_PATH = Inr launchText"
  by code_simp

lemma launchText_lines:
  "jsLines launchText =
     [js ''#!/bin/sh'', js ''SERVER_VERSION=1.0'', [], js ''java -jar server.jar'', js ''SERVER_VERSION=old'']"
  by code_simp

lemma launchText_version_lines:
  "\<not> versionLine (js ''#!/bin/sh'')" "versionLine (js ''SERVER_VERSION=1.0'')"
  by code_simp+

lemma launchText_others:
  "js ''#!/bin/sh'' \<noteq> js ''SERVER_VERSION='' @ js ''2.0''"
  "js ''2.0'' \<noteq> []"
  "js ''java -jar server.jar'' \<noteq> js ''SERVER_VERSION='' @ js ''2.0''"
  "js ''SERVER_VERSION=old'' \<noteq> js ''SERVER_VERSION='' @ js ''2.0''"
  by code_simp+

lemma two_plain: "0x24 \<notin> set (js ''2.0'')" "list_all notLineTerminator (js ''2.0'')"
  by code_simp+

theorem launch_patch_witness:
  "readFile built LAUNCH_SH_PATH = Inr launchText \<and>
   0x24 \<notin> set (js ''2.0'') \<and> list_all notLineTerminator (js ''2.0'') \<and>
   (\<exists>c'. readFile (snd (updateRepoFiles (js ''2.0'') built)) LAUNCH_SH_PATH = Inr c' \<and>
      jsLines c' =
        [js ''#!/bin/sh'', js ''SERVER_VERSION='' @ js ''2.0'', [], js ''java -jar server.jar'', js ''SERVER_VERSION=old''] \<and>
      count_list (jsLines c') (js ''SERVER_VERSION='' @ js ''2.0'') = 1)"
proof -
  from launch_patch [OF built_launch two_plain] obtain c' where
    c: "readFile (snd (updateRepoFiles (js ''2.0'') built)) LAUNCH_SH_PATH = Inr c'"
       "\<forall>i<length (jsLines launchText).
        versionLine (jsLines launchText ! i) \<and> (\<forall>j<i. \<not> versionLine (jsLines launchText ! j)) \<longrightarrow>
          jsLines c' = (jsLines launchText)[i := js ''SERVER_VERSION='' @ js ''2.0''] \<and>
          filter isLineTerminator c' = filter isLineTerminator launchText \<and>
          ((\<forall>j<length (jsLines launchText). j \<noteq> i \<longrightarrow>
              jsLines launchText ! j \<noteq> js ''SERVER_VERSION='' @ js ''2.0'') \<longrightarrow>
             count_list (jsLines c') (js ''SERVER_VERSION='' @ js ''2.0'') = 1)"
    by blast
  have 1: "1 < length (jsLines launchText)"
    by (simp add: launchText_lines)
  have 2: "versionLine (jsLines launchText ! 1) \<and> (\<forall>j<1. \<not> versionLine (jsLines launchText ! j))"
    by (simp add: launchText_lines launchText_version_lines)
  have 3: "\<forall>j<length (jsLines launchText). j \<noteq> 1 \<longrightarrow>
              jsLines launchText ! j \<noteq> js ''SERVER_VERSION='' @ js ''2.0''"
    by (simp add: launchText_lines less_Suc_eq launchText_others)
  from c(2) 1 2 have "jsLines c' = (jsLines launchText)[1 := js ''SERVER_VERSION='' @ js ''2.0''] \<and>
          ((\<forall>j<length (jsLines launchText). j \<noteq> 1 \<longrightarrow>
              jsLines launchText ! j \<noteq> js ''SERVER_VERSION='' @ js ''2.0'') \<longrightarrow>
             count_list (jsLines c') (js ''SERVER_VERSION='' @ js ''2.0'') = 1)"
    by blast
  with 3 have 4: "jsLines c' = (jsLines launchText)[1 := js ''SERVER_VERSION='' @ js ''2.0'']"
    and 5: "count_list (jsLines c') (js ''SERVER_VERSION='' @ js ''2.0'') = 1"
    by blast+
  have "(jsLines launchText)[1 := js ''SERVER_VERSION='' @ js ''2.0''] =
      [js ''#!/bin/sh'', js ''SERVER_VERSION='' @ js ''2.0'', [], js ''java -jar server.jar'', js ''SERVER_VERSION=old'']"
    by (simp add: launchText_lines)
  with 4 have "jsLines c' =
      [js ''#!/bin/sh'', js ''SERVER_VERSION='' @ js ''2.0'', [], js ''java -jar server.jar'', js ''SERVER_VERSION=old'']"
    by (rule trans)
  with 5 c(1) built_launch two_plain show ?thesis
    by blast
qed

text \<open>
  C4 as stated fails: a launch script without a version line is read back unchanged, so
  no line of it is \<^verbatim>\<open>SERVER_VERSION=2.0\<close>.
\<close>

theorem launch_without_version_line:
  "readFile noVersion LAUNCH_SH_PATH = Inr (js ''java -jar server.jar'') \<and>
   readFile (snd (updateRepoFiles (js ''2.0'') noVersion)) LAUNCH_SH_PATH = Inr (js ''java -jar server.jar'') \<and>
   count_list (jsLines (js ''java -jar server.jar'')) (js ''SERVER_VERSION=2.0'') = 0"
  by code_simp










text \<open>
  What the hypotheses on \<^verbatim>\<open>$\<close> leave out: \<^verbatim>\<open>replace\<close> expands \<^verbatim>\<open>$&\<close> in a version label to
  the replaced line and \<^verbatim>\<open>$1\<close> in a program name to the first capture.
\<close>

lemma label_with_dollar:
  "js_replace launchRegex (js ''SERVER_VERSION=1.0'') (js ''SERVER_VERSION='' @ js ''2.0$&'') =
     js ''SERVER_VERSION=2.0SERVER_VERSION=1.0''"
  by code_simp

lemma program_name_with_dollar:
  "js_replace dockerRegex (js ''ADD old.jar /srv/'')
     (js ''COPY '' @ js ''s$1.jar'' @ js '' /server/minecraft_server.jar'') =
     js ''COPY sADD.jar /server/minecraft_server.jar''"
  by code_simp



section \<open>Properties of main\<close>

lemma main_failure_keeps_scratch:
  assumes "mkdir (disk w) TEMP_DIR = Inr d1" and "findLatestServerFile (api e) = Inl err"
  shows "main e w = (1, w\<lparr>disk := d1\<rparr>) \<and> existsSync d1 TEMP_DIR"
  using assms mkdir_exists [OF assms(1)] by (simp add: main_def tryBlock_def)

lemma main_failure_exit: "tryBlock e w = (Inl err, w') \<Longrightarrow> main e w = (1, w')"
  by (simp add: main_def)

lemma main_success_removes_scratch:
  assumes "tryBlock e w = (Inr (), w')"
  shows "fst (main e w) = 0 \<and> \<not> existsSync (disk (snd (main e w))) TEMP_DIR"
  using assms
  by (simp add: main_def finallyBlock_def rm_def) (simp add: existsSync_def resolve_TEMP_DIR lookup_remove)

text \<open>
  C10 fails on the code. The catalog lists no file, so \<open>findLatestServerFile\<close> throws
  after the scratch directory was created; the \<^verbatim>\<open>catch\<close> block ends the process with
  status 1 and the directory, which did not exist before the run, exists at the exit.
\<close>

theorem failed_run_leaves_scratch:
  "fst (main failingEnv freshWorld) = 1 \<and>
   \<not> existsSync (disk freshWorld) TEMP_DIR \<and>
   existsSync (disk (snd (main failingEnv freshWorld))) TEMP_DIR"
proof -
  have a: "mkdir (disk freshWorld) TEMP_DIR =
             Inr (Dir [(js ''launch.sh'', File (js ''SERVER_VERSION=1.0'')), (js ''temp_server_files'', Dir [])])"
    by (simp add: mkdir_def resolve_TEMP_DIR freshWorld_def) (simp add: js_def)
  have b: "findLatestServerFile (api failingEnv) = Inl NoMatchingReleaseError"
    by (simp add: findLatestServerFile_def selectServerFile_def failingEnv_def)
  have c: "\<not> existsSync (disk freshWorld) TEMP_DIR"
    by (simp add: existsSync_def resolve_TEMP_DIR freshWorld_def) (simp add: js_def)
  show ?thesis
    using main_failure_keeps_scratch [OF a b] c by simp
qed


end
